theory Spec2Isabelle
  imports Main "HOL-Library.Multiset" "HOL-Library.Char_ord" "HOL-Library.List_Lexorder"
begin

section \<open>Dependency resolution of assets (flexx/app/\_asset.py)\<close>

subsection \<open>Data model\<close>

text \<open>
  The exceptions the module can raise, each with its message. A message built with
  \<open>%s\<close> from strings is built here too; the one message built with \<open>%r\<close> (in
  \<open>to_string\<close>) is kept as its format string. \<open>IndexError\<close>, \<open>KeyError\<close> and
  \<open>AttributeError\<close> are the implicit failures of \<open>names[index]\<close>, \<open>thingmap[name]\<close>
  and of a method call on an object that has no such method; \<open>URLError\<close> stands for
  whatever the network layer raises.
\<close>

datatype error =
    RuntimeError string
  | TypeError string
  | ValueError string
  | AssertionError string
  | IndexError
  | KeyError
  | AttributeError
  | URLError

text \<open>
  A thing handed to \<open>solve_dependencies\<close>: any object with a \<open>name\<close> and a \<open>deps\<close>
  attribute. \<open>deps\<close> is kept in its iteration order. The record is extensible, so the
  other attributes of the object live in the \<open>more\<close> part.
\<close>

record thing =
  name :: string
  deps :: "string list"

type_synonym log = "(string \<times> string) list"

subsection \<open>List primitives of Python\<close>

text \<open>\<open>names.index(x)\<close>: the first position of \<open>x\<close>. The source calls it only on the
  branch where \<open>x in names\<close> holds; for an absent \<open>x\<close> the model gives the length.\<close>

fun index_of :: "'a \<Rightarrow> 'a list \<Rightarrow> nat" where
  "index_of x [] = 0"
| "index_of x (y # ys) = (if x = y then 0 else Suc (index_of x ys))"

text \<open>\<open>names.pop(j)\<close> gives the element and the shortened list.\<close>

definition list_pop :: "nat \<Rightarrow> 'a list \<Rightarrow> 'a \<times> 'a list" where
  "list_pop j xs = (xs ! j, take j xs @ drop (Suc j) xs)"

text \<open>\<open>names.insert(index, x)\<close>; beyond the end Python appends, and so does this.\<close>

definition list_insert :: "nat \<Rightarrow> 'a \<Rightarrow> 'a list \<Rightarrow> 'a list" where
  "list_insert i x xs = take i xs @ x # drop i xs"

text \<open>\<open>names.insert(index, names.pop(j))\<close>\<close>

definition move_front :: "nat \<Rightarrow> nat \<Rightarrow> 'a list \<Rightarrow> 'a list" where
  "move_front index j names = (case list_pop j names of (x, rest) \<Rightarrow> list_insert index x rest)"

subsection \<open>solve\_dependencies\<close>

text \<open>
  The \<open>for dep in thingmap[name].deps\<close> loop with its \<open>else\<close> clause. The result is
  the log after the loop and \<open>Some j\<close> when the loop left through \<open>break\<close> with the
  dependency found at \<open>j > index\<close>, \<open>None\<close> when it ran to its end.
\<close>

fun scan_deps :: "bool \<Rightarrow> string \<Rightarrow> nat \<Rightarrow> string list \<Rightarrow> string list \<Rightarrow> log \<Rightarrow> log \<times> nat option" where
  "scan_deps warn_missing nm index names [] lg = (lg, None)"
| "scan_deps warn_missing nm index names (dep # ds) lg =
     (if dep \<notin> set names
      then scan_deps warn_missing nm index names ds (if warn_missing then lg @ [(nm, dep)] else lg)
      else let j = index_of dep names
           in if j > index then (lg, Some j)
              else scan_deps warn_missing nm index names ds lg)"

lemma scan_deps_Some:
  "scan_deps w nm index names ds lg = (lg', Some j) \<Longrightarrow>
     index < j \<and> j < length names \<and> names ! j \<in> set ds \<and> index_of (names ! j) names = j"
proof (induction ds arbitrary: lg)
  case Nil
  then show ?case by simp
next
  case (Cons d ds)
  have idx: "x \<in> set xs \<Longrightarrow> index_of x xs < length xs \<and> xs ! index_of x xs = x" for x :: string and xs
    by (induction xs) auto
  show ?case
  proof (cases "d \<in> set names")
    case False
    with Cons show ?thesis by auto
  next
    case True
    show ?thesis
    proof (cases "index < index_of d names")
      case True
      with \<open>d \<in> set names\<close> Cons.prems idx [of d names] show ?thesis by auto
    next
      case False
      with \<open>d \<in> set names\<close> Cons show ?thesis by auto
    qed
  qed
qed

lemma mset_list_insert: "mset (list_insert i x xs) = add_mset x (mset xs)"
proof -
  have "mset (take i xs) + mset (drop i xs) = mset xs"
    by (metis append_take_drop_id mset_append)
  then show ?thesis by (simp add: list_insert_def)
qed

lemma mset_move_front: "j < length names \<Longrightarrow> mset (move_front index j names) = mset names"
proof -
  assume j: "j < length names"
  have "mset names = mset (take j names @ names ! j # drop (Suc j) names)"
    using j by (simp add: id_take_nth_drop [symmetric])
  then show ?thesis
    by (simp add: move_front_def list_pop_def mset_list_insert)
qed

lemma set_move_front: "j < length names \<Longrightarrow> set (move_front index j names) = set names"
  by (metis mset_move_front set_mset_mset)

lemma length_move_front: "j < length names \<Longrightarrow> length (move_front index j names) = length names"
  by (metis mset_move_front size_mset)

text \<open>
  The \<open>while True\<close> loop that settles one position. Every round either raises, leaves
  the loop, or adds a name of \<open>names\<close> to \<open>seen_names\<close> that was not there.
\<close>

function settle ::
  "(string \<rightharpoonup> 'a thing_scheme) \<Rightarrow> bool \<Rightarrow> nat \<Rightarrow> string list \<Rightarrow> string set \<Rightarrow> log
     \<Rightarrow> log \<times> (error + string list)" where
  "settle thingmap warn_missing index names seen_names lg =
     (if length names \<le> index then (lg, Inl IndexError)
      else if names ! index \<in> seen_names
        then (lg, Inl (RuntimeError ''Detected circular dependency!''))
      else (case thingmap (names ! index) of
          None \<Rightarrow> (lg, Inl KeyError)
        | Some t \<Rightarrow>
            (case scan_deps warn_missing (names ! index) index names (deps t) lg of
               (lg', Some j) \<Rightarrow>
                 settle thingmap warn_missing index (move_front index j names)
                   (insert (names ! index) seen_names) lg'
             | (lg', None) \<Rightarrow> (lg', Inr names))))"
  by pat_completeness auto
termination
proof (relation "measure (\<lambda>(thingmap, warn_missing, index, names, seen_names, lg).
                    card (set names - seen_names))", goal_cases)
  case 1
  show ?case by simp
next
  case (2 thingmap warn_missing index names seen_names lg t lg' r j)
  from 2 have j: "j < length names"
    using scan_deps_Some [of warn_missing "names ! index" index names "deps t" lg lg' j] by simp
  from 2 have "names ! index \<in> set names - seen_names" by simp
  then have "card (set names - insert (names ! index) seen_names) < card (set names - seen_names)"
    by (metis Diff_insert List.finite_set card_Diff1_less finite_Diff)
  with j show ?case by (simp add: set_move_front)
qed

text \<open>The \<open>for index in range(len(names))\<close> loop; the range is fixed when the loop starts.\<close>

fun for_index ::
  "(string \<rightharpoonup> 'a thing_scheme) \<Rightarrow> bool \<Rightarrow> nat list \<Rightarrow> string list \<Rightarrow> log
     \<Rightarrow> log \<times> (error + string list)" where
  "for_index thingmap warn_missing [] names lg = (lg, Inr names)"
| "for_index thingmap warn_missing (index # rest) names lg =
     (case settle thingmap warn_missing index names {} lg of
        (lg', Inl e) \<Rightarrow> (lg', Inl e)
      | (lg', Inr names') \<Rightarrow> for_index thingmap warn_missing rest names' lg')"

text \<open>\<open>[thingmap[name] for name in names]\<close>\<close>

fun lookup_all :: "(string \<rightharpoonup> 'b) \<Rightarrow> string list \<Rightarrow> error + 'b list" where
  "lookup_all thingmap [] = Inr []"
| "lookup_all thingmap (n # ns) =
     (case thingmap n of
        None \<Rightarrow> Inl KeyError
      | Some t \<Rightarrow> (case lookup_all thingmap ns of Inl e \<Rightarrow> Inl e | Inr ts \<Rightarrow> Inr (t # ts)))"

text \<open>
  \<open>dict([(n, t) for n, t in zip(names, things)])\<close>: a later pair overrides an earlier
  one with the same key.
\<close>

definition make_thingmap :: "'a thing_scheme list \<Rightarrow> (string \<rightharpoonup> 'a thing_scheme)" where
  "make_thingmap things = map_of (rev (zip (map name things) things))"

text \<open>
  The function itself. The first component of the result is what was passed to
  \<open>logger.warn\<close>, as pairs of the name and its missing dependency, in order.
\<close>

definition solve_dependencies ::
  "'a thing_scheme list \<Rightarrow> bool \<Rightarrow> log \<times> (error + 'a thing_scheme list)" where
  "solve_dependencies things warn_missing =
     (let names = map name things;
          thingmap = make_thingmap things
      in case for_index thingmap warn_missing [0..<length names] names [] of
           (lg, Inl e) \<Rightarrow> (lg, Inl e)
         | (lg, Inr names') \<Rightarrow> (lg, lookup_all thingmap names'))"

lemma index_of_less: "x \<in> set xs \<Longrightarrow> index_of x xs < length xs"
  by (induction xs) auto

lemma nth_index_of: "x \<in> set xs \<Longrightarrow> xs ! index_of x xs = x"
  by (induction xs) auto

lemma index_of_nth_le: "i < length xs \<Longrightarrow> index_of (xs ! i) xs \<le> i"
proof (induction xs arbitrary: i)
  case Nil
  then show ?case by simp
next
  case (Cons a xs)
  then show ?case by (cases i) auto
qed

lemma index_of_distinct: "distinct xs \<Longrightarrow> i < length xs \<Longrightarrow> index_of (xs ! i) xs = i"
proof (induction xs arbitrary: i)
  case Nil
  then show ?case by simp
next
  case (Cons a xs)
  then show ?case by (cases i) auto
qed

lemma index_of_take:
  "x \<in> set xs \<Longrightarrow> index_of x xs < n \<Longrightarrow> index_of x (take n xs) = index_of x xs \<and> x \<in> set (take n xs)"
proof (induction xs arbitrary: n)
  case Nil
  then show ?case by simp
next
  case (Cons a xs)
  then show ?case by (cases n) auto
qed

lemma index_of_append: "x \<in> set xs \<Longrightarrow> index_of x (xs @ ys) = index_of x xs"
  by (induction xs) auto

lemma index_of_same_prefix:
  assumes "take n ys = take n xs" "x \<in> set xs" "index_of x xs < n"
  shows "index_of x ys = index_of x xs \<and> x \<in> set ys"
proof -
  note t = index_of_take [OF assms(2) assms(3)]
  from t have a: "index_of x (take n xs) = index_of x xs" by (rule conjunct1)
  from t have b: "x \<in> set (take n xs)" by (rule conjunct2)
  from b assms(1) have c: "x \<in> set (take n ys)" by simp
  have "index_of x (take n ys @ drop n ys) = index_of x (take n ys)"
    using c by (rule index_of_append)
  then have "index_of x ys = index_of x (take n ys)" by simp
  with a assms(1) have "index_of x ys = index_of x xs" by simp
  moreover from c have "x \<in> set ys" by (rule in_set_takeD)
  ultimately show ?thesis by simp
qed

lemma move_front_split:
  assumes "index \<le> j" "j < length names"
  obtains pre mid suf where "names = pre @ mid @ names ! j # suf"
    and "move_front index j names = pre @ names ! j # mid @ suf"
    and "length pre = index"
proof -
  define pre where "pre = take index names"
  define mid where "mid = drop index (take j names)"
  define suf where "suf = drop (Suc j) names"
  have tj: "take j names = pre @ mid"
    using assms unfolding pre_def mid_def
    by (metis append_take_drop_id min.absorb2 take_take min.commute)
  have "take j names @ names ! j # drop (Suc j) names = names"
    using assms(2) by (rule id_take_nth_drop [symmetric])
  then have 1: "names = pre @ mid @ names ! j # suf"
    unfolding tj suf_def by simp
  have lp: "length pre = index" using assms unfolding pre_def by simp
  have "move_front index j names
      = take index (take j names @ suf) @ names ! j # drop index (take j names @ suf)"
    unfolding suf_def by (simp add: move_front_def list_pop_def list_insert_def)
  also have "\<dots> = pre @ names ! j # mid @ suf"
    unfolding tj using lp by simp
  finally have 2: "move_front index j names = pre @ names ! j # mid @ suf" .
  from 1 2 lp that show thesis by blast
qed

lemma take_move_front:
  assumes "index \<le> j" "j < length names"
  shows "take index (move_front index j names) = take index names"
proof -
  from assms obtain pre mid suf where a: "names = pre @ mid @ names ! j # suf"
    and b: "move_front index j names = pre @ names ! j # mid @ suf" and c: "length pre = index"
    by (rule move_front_split)
  have "take index (pre @ names ! j # mid @ suf) = pre" using c by simp
  moreover have "take index (pre @ mid @ names ! j # suf) = pre" using c by simp
  ultimately show ?thesis using a b by metis
qed

lemma nth_move_front:
  assumes "index \<le> j" "j < length names"
  shows "move_front index j names ! index = names ! j"
proof -
  from assms obtain pre mid suf where
    b: "move_front index j names = pre @ names ! j # mid @ suf" and c: "length pre = index"
    by (rule move_front_split)
  have "(pre @ names ! j # mid @ suf) ! index = names ! j" using c by (simp add: nth_append)
  then show ?thesis using b by simp
qed

declare settle.simps [simp del]

definition settled_at :: "(string \<rightharpoonup> 'a thing_scheme) \<Rightarrow> string list \<Rightarrow> nat \<Rightarrow> bool" where
  "settled_at thingmap names k \<longleftrightarrow>
     (\<forall>t d. thingmap (names ! k) = Some t \<longrightarrow> d \<in> set (deps t) \<longrightarrow> d \<in> set names
        \<longrightarrow> index_of d names \<le> k)"

lemma scan_deps_None:
  "scan_deps w nm index names ds lg = (lg', None) \<Longrightarrow>
     \<forall>d\<in>set ds. d \<in> set names \<longrightarrow> index_of d names \<le> index"
  by (induction ds arbitrary: lg) (auto split: if_splits simp: Let_def)

lemma settle_step:
  assumes "index < length names" "names ! index \<notin> seen" "thingmap (names ! index) = Some t"
    and "scan_deps w (names ! index) index names (deps t) lg = (lg1, Some j)"
  shows "settle thingmap w index names seen lg
       = settle thingmap w index (move_front index j names) (insert (names ! index) seen) lg1"
  using assms by (subst settle.simps) simp

lemma settle_stop:
  assumes "index < length names" "names ! index \<notin> seen" "thingmap (names ! index) = Some t"
    and "scan_deps w (names ! index) index names (deps t) lg = (lg1, None)"
  shows "settle thingmap w index names seen lg = (lg1, Inr names)"
  using assms by (subst settle.simps) simp

lemma settle_range:
  "length names \<le> index \<Longrightarrow> settle thingmap w index names seen lg = (lg, Inl IndexError)"
  by (subst settle.simps) simp

lemma settle_seen:
  "index < length names \<Longrightarrow> names ! index \<in> seen \<Longrightarrow>
     settle thingmap w index names seen lg
       = (lg, Inl (RuntimeError ''Detected circular dependency!''))"
  by (subst settle.simps) simp

lemma settle_key:
  "index < length names \<Longrightarrow> names ! index \<notin> seen \<Longrightarrow> thingmap (names ! index) = None \<Longrightarrow>
     settle thingmap w index names seen lg = (lg, Inl KeyError)"
  by (subst settle.simps) simp

lemma settle_cases:
  obtains (range) "length names \<le> index"
      "settle thingmap w index names seen lg = (lg, Inl IndexError)"
  | (seen) "index < length names" "names ! index \<in> seen"
      "settle thingmap w index names seen lg = (lg, Inl (RuntimeError ''Detected circular dependency!''))"
  | (key) "index < length names" "names ! index \<notin> seen" "thingmap (names ! index) = None"
      "settle thingmap w index names seen lg = (lg, Inl KeyError)"
  | (stop) t lg1 where "index < length names" "names ! index \<notin> seen"
      "thingmap (names ! index) = Some t"
      "scan_deps w (names ! index) index names (deps t) lg = (lg1, None)"
      "settle thingmap w index names seen lg = (lg1, Inr names)"
  | (step) t lg1 j where "index < length names" "names ! index \<notin> seen"
      "thingmap (names ! index) = Some t"
      "scan_deps w (names ! index) index names (deps t) lg = (lg1, Some j)"
      "index < j" "j < length names" "names ! j \<in> set (deps t)"
      "settle thingmap w index names seen lg
       = settle thingmap w index (move_front index j names) (insert (names ! index) seen) lg1"
proof (cases "length names \<le> index")
  case True
  with settle_range [of names index thingmap w seen lg] range show ?thesis by blast
next
  case False
  then have lt: "index < length names" by simp
  show ?thesis
  proof (cases "names ! index \<in> seen")
    case True
    with lt settle_seen [of index names seen thingmap w lg] seen show ?thesis by blast
  next
    case ns: False
    show ?thesis
    proof (cases "thingmap (names ! index)")
      case None
      with lt ns settle_key [of index names seen thingmap w lg] key show ?thesis by blast
    next
      case (Some t)
      obtain lg1 r where sc: "scan_deps w (names ! index) index names (deps t) lg = (lg1, r)"
        by (cases "scan_deps w (names ! index) index names (deps t) lg") blast
      show ?thesis
      proof (cases r)
        case None
        with lt ns Some sc settle_stop [of index names seen thingmap t w lg lg1] stop
        show ?thesis by blast
      next
        case (Some j)
        with sc have sc': "scan_deps w (names ! index) index names (deps t) lg = (lg1, Some j)"
          by simp
        from scan_deps_Some [OF sc'] have "index < j" "j < length names" "names ! j \<in> set (deps t)"
          by simp_all
        with lt ns \<open>thingmap (names ! index) = Some t\<close> sc'
          settle_step [of index names seen thingmap t w lg lg1 j] step
        show ?thesis by blast
      qed
    qed
  qed
qed

lemma settle_Inr:
  "settle tm w index names seen lg = (lg', Inr names') \<Longrightarrow>
     index < length names \<and> mset names' = mset names
     \<and> take index names' = take index names \<and> settled_at tm names' index"
proof (induction tm w index names seen lg rule: settle.induct)
  case (1 tm w index names seen lg)
  show ?case
  proof (cases rule: settle_cases [of names index tm w seen lg])
    case range
    with "1.prems" show ?thesis by simp
  next
    case seen
    with "1.prems" show ?thesis by simp
  next
    case key
    with "1.prems" show ?thesis by simp
  next
    case (stop t lg1)
    with "1.prems" have eq: "names' = names" by simp
    from scan_deps_None [OF stop(4)] stop(3) have "settled_at tm names index"
      by (auto simp: settled_at_def)
    with eq stop(1) show ?thesis by simp
  next
    case (step t lg1 j)
    from step(8) "1.prems"
    have r: "settle tm w index (move_front index j names) (insert (names ! index) seen) lg1
               = (lg', Inr names')" by simp
    have "index < length (move_front index j names) \<and> mset names' = mset (move_front index j names)
        \<and> take index names' = take index (move_front index j names) \<and> settled_at tm names' index"
      using "1.IH" [of t lg1 "Some j" j] step r by simp
    then show ?thesis
      using step(1,5,6) by (simp add: mset_move_front take_move_front)
  qed
qed

lemma settled_preserved:
  assumes s: "settled_at tm names i" and i: "i < index"
    and t: "take index names' = take index names" and e: "set names' = set names"
  shows "settled_at tm names' i"
proof -
  have "take index names' ! i = names' ! i" "take index names ! i = names ! i"
    using i by simp_all
  with t have n: "names' ! i = names ! i" by simp
  show ?thesis
    unfolding settled_at_def
  proof (intro allI impI)
    fix u d
    assume a: "tm (names' ! i) = Some u" "d \<in> set (deps u)" "d \<in> set names'"
    with s n e have le: "index_of d names \<le> i" and d: "d \<in> set names"
      by (auto simp: settled_at_def)
    then have "index_of d names < index" using i by simp
    from index_of_same_prefix [OF t d this] le show "index_of d names' \<le> i" by simp
  qed
qed

lemma for_index_Inr:
  "for_index tm w [k..<n] names lg = (lg', Inr names') \<Longrightarrow> \<forall>i<k. settled_at tm names i \<Longrightarrow>
     mset names' = mset names \<and> (\<forall>i<n. settled_at tm names' i)"
proof (induction "n - k" arbitrary: k names lg)
  case 0
  then have nk: "n \<le> k" by simp
  then have "[k..<n] = []" by simp
  with "0.prems" have "names' = names" by simp
  with "0.prems"(2) nk show ?case by auto
next
  case (Suc m)
  then have kn: "k < n" by simp
  then have u: "[k..<n] = k # [Suc k..<n]" by (rule upt_conv_Cons)
  obtain lg1 r where st: "settle tm w k names {} lg = (lg1, r)"
    by (cases "settle tm w k names {} lg") blast
  show ?case
  proof (cases r)
    case (Inl e)
    with Suc.prems(1) u st show ?thesis by simp
  next
    case (Inr names1)
    with st have st': "settle tm w k names {} lg = (lg1, Inr names1)" by simp
    from settle_Inr [OF st'] have m: "mset names1 = mset names"
      and t: "take k names1 = take k names" and sk: "settled_at tm names1 k" by simp_all
    from m have e: "set names1 = set names" by (rule mset_eq_setD)
    have all: "\<forall>i<Suc k. settled_at tm names1 i"
    proof (intro allI impI)
      fix i assume "i < Suc k"
      then consider "i < k" | "i = k" by linarith
      then show "settled_at tm names1 i"
      proof cases
        case 1
        with Suc.prems(2) have "settled_at tm names i" by simp
        from settled_preserved [OF this 1 t e] show ?thesis .
      next
        case 2
        with sk show ?thesis by simp
      qed
    qed
    from Suc.prems(1) u st' have f: "for_index tm w [Suc k..<n] names1 lg1 = (lg', Inr names')"
      by simp
    have "m = n - Suc k" using Suc.hyps(2) by simp
    from Suc.hyps(1) [OF this f all] m show ?thesis by simp
  qed
qed

lemma zip_names: "zip (map name things) things = map (\<lambda>t. (name t, t)) things"
  by (induction things) auto

lemma make_thingmap_Some:
  "make_thingmap things n = Some t \<Longrightarrow> t \<in> set things \<and> name t = n"
proof -
  assume "make_thingmap things n = Some t"
  then have "(n, t) \<in> set (rev (zip (map name things) things))"
    unfolding make_thingmap_def by (rule map_of_SomeD)
  then show ?thesis by (auto simp: zip_names)
qed

lemma make_thingmap_dom:
  "make_thingmap things n \<noteq> None \<longleftrightarrow> n \<in> name ` set things"
proof -
  have "fst ` set (rev (zip (map name things) things)) = name ` set things"
    by (force simp: zip_names)
  then show ?thesis
    unfolding make_thingmap_def by (metis map_of_eq_None_iff)
qed

lemma make_thingmap_distinct:
  assumes "distinct (map name things)" "t \<in> set things"
  shows "make_thingmap things (name t) = Some t"
proof -
  have "map fst (rev (zip (map name things) things)) = rev (map name things)"
    by (simp add: zip_names rev_map comp_def)
  with assms(1) have "distinct (map fst (rev (zip (map name things) things)))" by simp
  moreover from assms(2) have "(name t, t) \<in> set (rev (zip (map name things) things))"
    by (simp add: zip_names)
  ultimately show ?thesis unfolding make_thingmap_def by (rule map_of_is_SomeI)
qed

lemma lookup_all_total:
  "\<forall>n\<in>set ns. tm n \<noteq> None \<Longrightarrow> lookup_all tm ns = Inr (map (\<lambda>n. the (tm n)) ns)"
  by (induction ns) auto

lemma lookup_all_Inr:
  "lookup_all tm ns = Inr ts \<Longrightarrow> ts = map (\<lambda>n. the (tm n)) ns \<and> (\<forall>n\<in>set ns. tm n \<noteq> None)"
  by (induction ns arbitrary: ts) (auto split: option.splits sum.splits)

definition dep_graph :: "'a thing_scheme list \<Rightarrow> (string \<times> string) set" where
  "dep_graph things =
     {(x, y). \<exists>t\<in>set things. name t = x \<and> y \<in> set (deps t) \<and> y \<in> name ` set things}"

definition circular :: error where
  "circular = RuntimeError ''Detected circular dependency!''"

lemma settle_Inl:
  "settle tm w index names seen lg = (lg', Inl e) \<Longrightarrow> index < length names \<Longrightarrow>
   \<forall>n\<in>set names. tm n \<noteq> None \<Longrightarrow>
   \<forall>n t d. n \<in> set names \<longrightarrow> tm n = Some t \<longrightarrow> d \<in> set (deps t) \<longrightarrow> d \<in> set names
      \<longrightarrow> d \<noteq> n \<longrightarrow> (n, d) \<in> G \<Longrightarrow>
   \<forall>s\<in>seen. (s, names ! index) \<in> G\<^sup>+ \<Longrightarrow>
   e = circular \<and> (\<exists>x. (x, x) \<in> G\<^sup>+)"
proof (induction tm w index names seen lg rule: settle.induct)
  case (1 tm w index names seen lg)
  show ?case
  proof (cases rule: settle_cases [of names index tm w seen lg])
    case range
    with "1.prems" show ?thesis by simp
  next
    case seen
    with "1.prems"(1) have "e = circular" by (simp add: circular_def)
    moreover from seen(2) "1.prems"(5) have "(names ! index, names ! index) \<in> G\<^sup>+" by blast
    ultimately show ?thesis by blast
  next
    case key
    from key(1) have "names ! index \<in> set names" by simp
    with "1.prems"(3) key(3) show ?thesis by blast
  next
    case (stop t lg1)
    with "1.prems"(1) show ?thesis by simp
  next
    case (step t lg1 j)
    let ?names = "move_front index j names"
    from step(8) "1.prems"(1)
    have r: "settle tm w index ?names (insert (names ! index) seen) lg1 = (lg', Inl e)" by simp
    have s: "set ?names = set names" using step(6) by (rule set_move_front)
    have l: "index < length ?names" using step(1,6) by (simp add: length_move_front)
    have n: "?names ! index = names ! j" using step(5,6) by (simp add: nth_move_front)
    have "names ! index \<in> set names" "names ! j \<in> set names" using step(1,6) by simp_all
    moreover have "names ! j \<noteq> names ! index"
    proof
      assume "names ! j = names ! index"
      with scan_deps_Some [OF step(4)] have "index_of (names ! index) names = j" by simp
      with index_of_nth_le [OF step(1)] step(5) show False by simp
    qed
    ultimately have edge: "(names ! index, names ! j) \<in> G"
      using "1.prems"(4) step(3,7) by blast
    have inv: "\<forall>s\<in>insert (names ! index) seen. (s, ?names ! index) \<in> G\<^sup>+"
    proof
      fix s assume "s \<in> insert (names ! index) seen"
      then consider "s = names ! index" | "s \<in> seen" by blast
      then show "(s, ?names ! index) \<in> G\<^sup>+"
      proof cases
        case 1
        with edge n show ?thesis by simp
      next
        case 2
        with "1.prems"(5) have "(s, names ! index) \<in> G\<^sup>+" by simp
        with edge n show ?thesis by (simp add: trancl_into_trancl)
      qed
    qed
    show ?thesis
      using "1.IH" [of t lg1 "Some j" j] step r l s "1.prems"(3,4) inv by simp
  qed
qed

lemma for_index_Inl:
  "for_index tm w [k..<n] names lg = (lg', Inl e) \<Longrightarrow> n \<le> length names \<Longrightarrow>
   \<forall>n\<in>set names. tm n \<noteq> None \<Longrightarrow>
   \<forall>n t d. n \<in> set names \<longrightarrow> tm n = Some t \<longrightarrow> d \<in> set (deps t) \<longrightarrow> d \<in> set names
      \<longrightarrow> d \<noteq> n \<longrightarrow> (n, d) \<in> G \<Longrightarrow>
   e = circular \<and> (\<exists>x. (x, x) \<in> G\<^sup>+)"
proof (induction "n - k" arbitrary: k names lg)
  case 0
  then have "[k..<n] = []" by simp
  with "0.prems"(1) show ?case by simp
next
  case (Suc m)
  then have kn: "k < n" by simp
  then have u: "[k..<n] = k # [Suc k..<n]" by (rule upt_conv_Cons)
  from kn Suc.prems(2) have kl: "k < length names" by simp
  obtain lg1 r where st: "settle tm w k names {} lg = (lg1, r)"
    by (cases "settle tm w k names {} lg") blast
  show ?case
  proof (cases r)
    case (Inl e1)
    with Suc.prems(1) u st have "settle tm w k names {} lg = (lg', Inl e)" by simp
    from settle_Inl [OF this kl Suc.prems(3,4)] show ?thesis by simp
  next
    case (Inr names1)
    with st have st': "settle tm w k names {} lg = (lg1, Inr names1)" by simp
    from settle_Inr [OF st'] have m: "mset names1 = mset names" by simp
    from m have e: "set names1 = set names" by (rule mset_eq_setD)
    from m have l: "length names1 = length names" by (rule mset_eq_length)
    from Suc.prems(1) u st' have f: "for_index tm w [Suc k..<n] names1 lg1 = (lg', Inl e)"
      by simp
    have "m = n - Suc k" using Suc.hyps(2) by simp
    from Suc.hyps(1) [OF this f] Suc.prems(2,3,4) e l show ?thesis by simp
  qed
qed

lemma solve_dependencies_Inl_strict:
  assumes "solve_dependencies things w = (lg, Inl e)"
  shows "e = circular \<and> (\<exists>x. (x, x) \<in> (dep_graph things - Id)\<^sup>+)"
proof -
  let ?names = "map name things" and ?tm = "make_thingmap things"
  have dom: "\<forall>n\<in>set ?names. ?tm n \<noteq> None"
  proof
    fix n assume "n \<in> set ?names"
    then have "n \<in> name ` set things" by simp
    then show "?tm n \<noteq> None" by (rule make_thingmap_dom [THEN iffD2])
  qed
  have G: "\<forall>n t d. n \<in> set ?names \<longrightarrow> ?tm n = Some t \<longrightarrow> d \<in> set (deps t)
      \<longrightarrow> d \<in> set ?names \<longrightarrow> d \<noteq> n \<longrightarrow> (n, d) \<in> dep_graph things - Id"
    using make_thingmap_Some [of things] by (fastforce simp: dep_graph_def)
  obtain lg1 r where f: "for_index ?tm w [0..<length ?names] ?names [] = (lg1, r)"
    by (cases "for_index ?tm w [0..<length ?names] ?names []") blast
  show ?thesis
  proof (cases r)
    case (Inl e1)
    with assms f have "for_index ?tm w [0..<length ?names] ?names [] = (lg, Inl e)"
      by (simp add: solve_dependencies_def)
    from for_index_Inl [OF this _ dom G] show ?thesis by simp
  next
    case (Inr names1)
    with f have f': "for_index ?tm w [0..<length ?names] ?names [] = (lg1, Inr names1)" by simp
    from for_index_Inr [OF f'] have "mset names1 = mset ?names" by simp
    then have "set names1 = set ?names" by (rule mset_eq_setD)
    with dom have "lookup_all ?tm names1 = Inr (map (\<lambda>n. the (?tm n)) names1)"
      by (intro lookup_all_total) simp
    with assms f' show ?thesis by (simp add: solve_dependencies_def)
  qed
qed

lemma solve_dependencies_Inl:
  assumes "solve_dependencies things w = (lg, Inl e)"
  shows "e = circular \<and> (\<exists>x. (x, x) \<in> (dep_graph things)\<^sup>+)"
proof -
  from solve_dependencies_Inl_strict [OF assms] obtain x where
    e: "e = circular" and x: "(x, x) \<in> (dep_graph things - Id)\<^sup>+" by blast
  have "dep_graph things - Id \<subseteq> dep_graph things" by blast
  from trancl_mono [OF x this] e show ?thesis by blast
qed

lemma two_name_cycle:
  assumes "(x, x) \<in> (G - Id)\<^sup>+"
  shows "\<exists>y. y \<noteq> x \<and> (x, y) \<in> G\<^sup>+ \<and> (y, x) \<in> G\<^sup>+"
proof -
  have sub: "G - Id \<subseteq> G" by blast
  from tranclD [OF assms] obtain z where z: "(x, z) \<in> G - Id" "(z, x) \<in> (G - Id)\<^sup>*" by blast
  from z(1) have ne: "z \<noteq> x" and xz: "(x, z) \<in> G\<^sup>+" by auto
  from z(2) ne have "(z, x) \<in> (G - Id)\<^sup>+" by (auto dest: rtranclD)
  from trancl_mono [OF this sub] ne xz show ?thesis by blast
qed

lemma solve_dependencies_Inr:
  assumes "solve_dependencies things w = (lg, Inr out)"
  shows "\<exists>names'. mset names' = mset (map name things)
           \<and> (\<forall>i<length names'. settled_at (make_thingmap things) names' i)
           \<and> (\<forall>n\<in>set names'. make_thingmap things n \<noteq> None)
           \<and> out = map (\<lambda>n. the (make_thingmap things n)) names'
           \<and> map name out = names'"
proof -
  let ?names = "map name things" and ?tm = "make_thingmap things"
  obtain lg1 r where f: "for_index ?tm w [0..<length ?names] ?names [] = (lg1, r)"
    by (cases "for_index ?tm w [0..<length ?names] ?names []") blast
  show ?thesis
  proof (cases r)
    case (Inl e)
    with assms f show ?thesis by (simp add: solve_dependencies_def)
  next
    case (Inr names1)
    with f have f': "for_index ?tm w [0..<length ?names] ?names [] = (lg1, Inr names1)" by simp
    from for_index_Inr [OF f'] have m: "mset names1 = mset ?names"
      and s: "\<forall>i<length ?names. settled_at ?tm names1 i" by simp_all
    from m have l: "length names1 = length ?names" by (rule mset_eq_length)
    from assms f' have "lookup_all ?tm names1 = Inr out" by (simp add: solve_dependencies_def)
    from lookup_all_Inr [OF this] have o: "out = map (\<lambda>n. the (?tm n)) names1"
      and d: "\<forall>n\<in>set names1. ?tm n \<noteq> None" by simp_all
    have "map name out = names1"
      unfolding o using d make_thingmap_Some [of things] by (auto intro!: map_idI)
    with m s l o d show ?thesis by auto
  qed
qed

lemma solve_dependencies_total:
  "(\<exists>lg out. solve_dependencies things w = (lg, Inr out))
   \<or> (\<exists>lg. solve_dependencies things w = (lg, Inl circular))"
proof (cases "solve_dependencies things w")
  case (Pair lg r)
  show ?thesis
  proof (cases r)
    case (Inl e)
    with Pair solve_dependencies_Inl [of things w lg e] show ?thesis by simp
  next
    case (Inr out)
    with Pair show ?thesis by simp
  qed
qed

lemma dep_graph_acyclicI:
  fixes f :: "string \<Rightarrow> nat"
  assumes "\<forall>t\<in>set things. \<forall>d\<in>set (deps t). d \<in> name ` set things \<longrightarrow> f d < f (name t)"
  shows "acyclic (dep_graph things)"
proof -
  have "dep_graph things \<subseteq> (measure f)\<inverse>"
    using assms by (auto simp: dep_graph_def)
  moreover have "acyclic ((measure f)\<inverse>)"
    by (simp add: wf_acyclic)
  ultimately show ?thesis by (rule acyclic_subset [rotated])
qed

lemma settled_edge:
  assumes d: "distinct (map name things)"
    and m: "mset names' = mset (map name things)"
    and s: "\<forall>i<length names'. settled_at (make_thingmap things) names' i"
    and e: "(a, b) \<in> dep_graph things"
  shows "index_of b names' \<le> index_of a names'"
proof -
  from e obtain t where t: "t \<in> set things" "name t = a" "b \<in> set (deps t)"
    "b \<in> name ` set things" by (auto simp: dep_graph_def)
  from m have st: "set names' = name ` set things" by (metis set_mset_mset set_map)
  with t have a: "a \<in> set names'" and b: "b \<in> set names'" by auto
  let ?i = "index_of a names'"
  have i: "?i < length names'" "names' ! ?i = a"
    using a by (simp_all add: index_of_less nth_index_of)
  from make_thingmap_distinct [OF d t(1)] t(2) have "make_thingmap things a = Some t" by simp
  with s i t(3) b show ?thesis unfolding settled_at_def by metis
qed

lemma settled_path:
  assumes d: "distinct (map name things)"
    and m: "mset names' = mset (map name things)"
    and s: "\<forall>i<length names'. settled_at (make_thingmap things) names' i"
    and e: "(a, b) \<in> (dep_graph things)\<^sup>+"
  shows "index_of b names' \<le> index_of a names'"
  using e
proof (induction rule: trancl_induct)
  case (base y)
  then show ?case by (rule settled_edge [OF d m s])
next
  case (step y z)
  from settled_edge [OF d m s step(2)] step(3) show ?case by simp
qed

text \<open>
  C10: \<open>solve_dependencies\<close> runs to completion on every list of things, with one of
  two outcomes and no other: it returns an ordering, that is a list of things of the
  input whose names are the names of the input, each as often as there; or it raises
  the circular-dependency error. The loop that settles one position is the total
  function \<open>settle\<close>: a round that does not leave the loop adds the name at \<open>index\<close>
  to \<open>seen_names\<close>, and a name met again raises.
\<close>

theorem solve_dependencies_terminates:
  "(\<exists>lg out. solve_dependencies things warn_missing = (lg, Inr out)
        \<and> mset (map name out) = mset (map name things) \<and> set out \<subseteq> set things)
   \<or> (\<exists>lg. solve_dependencies things warn_missing
             = (lg, Inl (RuntimeError ''Detected circular dependency!'')))"
proof (cases "\<exists>lg out. solve_dependencies things warn_missing = (lg, Inr out)")
  case True
  then obtain lg out where r: "solve_dependencies things warn_missing = (lg, Inr out)" by blast
  from solve_dependencies_Inr [OF r] obtain names' where
    m: "mset names' = mset (map name things)"
    and dm: "\<forall>n\<in>set names'. make_thingmap things n \<noteq> None"
    and o: "out = map (\<lambda>n. the (make_thingmap things n)) names'"
    and n: "map name out = names'" by blast
  have "set out \<subseteq> set things"
  proof
    fix t assume "t \<in> set out"
    with o obtain n where n: "n \<in> set names'" "t = the (make_thingmap things n)" by auto
    with dm obtain u where "make_thingmap things n = Some u" by blast
    with n(2) make_thingmap_Some [of things n u] show "t \<in> set things" by simp
  qed
  with r m n show ?thesis by auto
next
  case False
  with solve_dependencies_total [of things warn_missing] show ?thesis
    by (simp add: circular_def)
qed

text \<open>
  C1: for things with pairwise distinct names whose dependency graph, restricted to the
  names present, is acyclic, \<open>solve_dependencies\<close> returns a permutation of its input in
  which every present dependency of a thing stands strictly before the thing.
\<close>

theorem solve_dependencies_topological:
  assumes d: "distinct (map name things)" and a: "acyclic (dep_graph things)"
  shows "\<exists>lg out. solve_dependencies things warn_missing = (lg, Inr out)
           \<and> mset out = mset things
           \<and> (\<forall>i<length out. \<forall>d\<in>set (deps (out ! i)). d \<in> name ` set things
                 \<longrightarrow> (\<exists>j<i. name (out ! j) = d))"
proof -
  let ?tm = "make_thingmap things"
  from a have nc: "\<And>x. (x, x) \<notin> (dep_graph things)\<^sup>+" by (simp add: acyclic_def)
  with solve_dependencies_total [of things warn_missing]
    solve_dependencies_Inl [of things warn_missing]
  obtain lg out where r: "solve_dependencies things warn_missing = (lg, Inr out)" by blast
  from solve_dependencies_Inr [OF r] obtain names' where
    m: "mset names' = mset (map name things)"
    and s: "\<forall>i<length names'. settled_at ?tm names' i"
    and dm: "\<forall>n\<in>set names'. ?tm n \<noteq> None"
    and o: "out = map (\<lambda>n. the (?tm n)) names'"
    and n: "map name out = names'" by blast
  from m have st: "set names' = name ` set things" by (metis set_mset_mset set_map)
  have "mset out = image_mset (\<lambda>n. the (?tm n)) (mset (map name things))"
    unfolding o using m by (metis mset_map)
  also have "\<dots> = mset (map (\<lambda>t. the (?tm (name t))) things)"
    by (simp add: image_mset.compositionality comp_def)
  also have "map (\<lambda>t. the (?tm (name t))) things = things"
    using make_thingmap_distinct [OF d] by (intro map_idI) simp
  finally have perm: "mset out = mset things" .
  have ord: "\<exists>j<i. name (out ! j) = x"
    if i: "i < length out" and x: "x \<in> set (deps (out ! i))" "x \<in> name ` set things" for i x
  proof -
    from i o have il: "i < length names'" by simp
    from perm i have t: "out ! i \<in> set things" by (metis nth_mem set_mset_mset)
    from n i have ni: "names' ! i = name (out ! i)" by (metis nth_map)
    from make_thingmap_distinct [OF d t] ni have "?tm (names' ! i) = Some (out ! i)" by simp
    with s il x st have le: "index_of x names' \<le> i" unfolding settled_at_def by blast
    let ?j = "index_of x names'"
    from x st have xs: "x \<in> set names'" by simp
    then have j: "names' ! ?j = x" by (rule nth_index_of)
    have "?j \<noteq> i"
    proof
      assume "?j = i"
      with j ni have "name (out ! i) = x" by simp
      with t x have "(x, x) \<in> dep_graph things" by (auto simp: dep_graph_def)
      with nc show False by blast
    qed
    with le have lt: "?j < i" by simp
    with i n j have "name (out ! ?j) = x" by (metis less_trans nth_map)
    with lt show ?thesis by blast
  qed
  from r perm ord show ?thesis by blast
qed

theorem solve_dependencies_topological_witness:
  "\<exists>lg out. solve_dependencies
       [\<lparr>name = ''c'', deps = [''a'', ''zz'']\<rparr>, \<lparr>name = ''a'', deps = []\<rparr>,
        \<lparr>name = ''b'', deps = [''a'']\<rparr>] True = (lg, Inr out)
     \<and> mset out = mset [\<lparr>name = ''c'', deps = [''a'', ''zz'']\<rparr>, \<lparr>name = ''a'', deps = []\<rparr>,
        \<lparr>name = ''b'', deps = [''a'']\<rparr>]
     \<and> (\<forall>i<length out. \<forall>d\<in>set (deps (out ! i)).
           d \<in> name ` set [\<lparr>name = ''c'', deps = [''a'', ''zz'']\<rparr>, \<lparr>name = ''a'', deps = []\<rparr>,
             \<lparr>name = ''b'', deps = [''a'']\<rparr>]
           \<longrightarrow> (\<exists>j<i. name (out ! j) = d))"
proof -
  let ?things = "[\<lparr>name = ''c'', deps = [''a'', ''zz'']\<rparr>, \<lparr>name = ''a'', deps = []\<rparr>,
        \<lparr>name = ''b'', deps = [''a'']\<rparr>]"
  have d: "distinct (map name ?things)" by simp
  have a: "acyclic (dep_graph ?things)"
    by (rule dep_graph_acyclicI [where f = "\<lambda>n. if n = ''a'' then 0 else 1"]) simp
  from solve_dependencies_topological [OF d a, of True] show ?thesis .
qed

text \<open>
  C2 as stated fails: a thing that names itself among its dependencies is a dependency
  cycle among the present names, and \<open>solve_dependencies\<close> returns the list unchanged,
  because a dependency found at \<open>j = index\<close> is not moved and the name is looked at
  once only.
\<close>

theorem solve_dependencies_self_cycle_counterexample:
  "(''a'', ''a'') \<in> (dep_graph [\<lparr>name = ''a'', deps = [''a'']\<rparr>])\<^sup>+
   \<and> solve_dependencies [\<lparr>name = ''a'', deps = [''a'']\<rparr>] False
       = ([], Inr [\<lparr>name = ''a'', deps = [''a'']\<rparr>])"
proof
  have "(''a'', ''a'') \<in> dep_graph [\<lparr>name = ''a'', deps = [''a'']\<rparr>]"
    by (simp add: dep_graph_def)
  then show "(''a'', ''a'') \<in> (dep_graph [\<lparr>name = ''a'', deps = [''a'']\<rparr>])\<^sup>+" ..
  show "solve_dependencies [\<lparr>name = ''a'', deps = [''a'']\<rparr>] False
       = ([], Inr [\<lparr>name = ''a'', deps = [''a'']\<rparr>])"
    by code_simp
qed

text \<open>
  C2, amended: for things with pairwise distinct names, \<open>solve_dependencies\<close> raises
  exactly when there is a dependency cycle that runs through two different present
  names; it then raises the \<open>RuntimeError\<close> with the fixed message
  \<open>Detected circular dependency!\<close> (the message names no thing) and returns no
  ordering. So a cycle made only of things that depend on themselves is never
  detected.
\<close>

theorem solve_dependencies_cycle_raises:
  assumes d: "distinct (map name things)"
  shows "(\<exists>lg. solve_dependencies things warn_missing
                = (lg, Inl (RuntimeError ''Detected circular dependency!'')))
         \<longleftrightarrow> (\<exists>x y. x \<noteq> y \<and> (x, y) \<in> (dep_graph things)\<^sup>+
                    \<and> (y, x) \<in> (dep_graph things)\<^sup>+)"
proof
  assume "\<exists>lg. solve_dependencies things warn_missing
                = (lg, Inl (RuntimeError ''Detected circular dependency!''))"
  then obtain lg where "solve_dependencies things warn_missing = (lg, Inl circular)"
    by (auto simp: circular_def)
  from solve_dependencies_Inl_strict [OF this] obtain x where
    "(x, x) \<in> (dep_graph things - Id)\<^sup>+" by blast
  from two_name_cycle [OF this]
  show "\<exists>x y. x \<noteq> y \<and> (x, y) \<in> (dep_graph things)\<^sup>+ \<and> (y, x) \<in> (dep_graph things)\<^sup>+"
    by blast
next
  assume "\<exists>x y. x \<noteq> y \<and> (x, y) \<in> (dep_graph things)\<^sup>+ \<and> (y, x) \<in> (dep_graph things)\<^sup>+"
  then obtain x y where ne: "x \<noteq> y" and xy: "(x, y) \<in> (dep_graph things)\<^sup>+"
    and yx: "(y, x) \<in> (dep_graph things)\<^sup>+" by blast
  show "\<exists>lg. solve_dependencies things warn_missing
                = (lg, Inl (RuntimeError ''Detected circular dependency!''))"
  proof (rule ccontr)
    assume "\<not> ?thesis"
    with solve_dependencies_total [of things warn_missing]
    obtain lg out where r: "solve_dependencies things warn_missing = (lg, Inr out)"
      by (auto simp: circular_def)
    from solve_dependencies_Inr [OF r] obtain names' where
      m: "mset names' = mset (map name things)"
      and s: "\<forall>i<length names'. settled_at (make_thingmap things) names' i" by blast
    from m have st: "set names' = name ` set things" by (metis set_mset_mset set_map)
    from settled_path [OF d m s xy] settled_path [OF d m s yx]
    have eq: "index_of x names' = index_of y names'" by simp
    have "a \<in> name ` set things" if "(a, b) \<in> (dep_graph things)\<^sup>+" for a b
      using that by (induction rule: trancl_induct) (auto simp: dep_graph_def)
    with xy yx st have "x \<in> set names'" "y \<in> set names'" by blast+
    then have "names' ! index_of x names' = x" "names' ! index_of y names' = y"
      by (simp_all add: nth_index_of)
    with eq ne show False by simp
  qed
qed

theorem solve_dependencies_cycle_raises_witness:
  "\<exists>lg. solve_dependencies
       [\<lparr>name = ''A'', deps = [''B'']\<rparr>, \<lparr>name = ''B'', deps = [''C'']\<rparr>,
        \<lparr>name = ''C'', deps = [''A'']\<rparr>] True
     = (lg, Inl (RuntimeError ''Detected circular dependency!''))"
proof -
  let ?things = "[\<lparr>name = ''A'', deps = [''B'']\<rparr>, \<lparr>name = ''B'', deps = [''C'']\<rparr>,
        \<lparr>name = ''C'', deps = [''A'']\<rparr>]"
  have d: "distinct (map name ?things)" by simp
  have ab: "(''A'', ''B'') \<in> dep_graph ?things" by (simp add: dep_graph_def)
  have bc: "(''B'', ''C'') \<in> dep_graph ?things" by (simp add: dep_graph_def)
  have ca: "(''C'', ''A'') \<in> dep_graph ?things" by (simp add: dep_graph_def)
  from ab have xy: "(''A'', ''B'') \<in> (dep_graph ?things)\<^sup>+" ..
  from bc ca have yx: "(''B'', ''A'') \<in> (dep_graph ?things)\<^sup>+"
    by (rule trancl.intros(1) [THEN trancl_into_trancl])
  have ne: "''A'' \<noteq> ''B''" by simp
  from ne xy yx have c: "\<exists>x y. x \<noteq> y \<and> (x, y) \<in> (dep_graph ?things)\<^sup>+
      \<and> (y, x) \<in> (dep_graph ?things)\<^sup>+" by (intro exI conjI)
  from solve_dependencies_cycle_raises [OF d, of True, THEN iffD2, OF c] show ?thesis .
qed

lemma scan_deps_settled:
  "\<forall>d\<in>set ds. d \<in> set names \<longrightarrow> index_of d names \<le> index \<Longrightarrow>
     \<exists>lg'. scan_deps w nm index names ds lg = (lg', None)"
  by (induction ds arbitrary: lg) (auto simp: Let_def)

lemma settle_settled:
  assumes "index < length names" "tm (names ! index) = Some t" "settled_at tm names index"
  shows "\<exists>lg'. settle tm w index names {} lg = (lg', Inr names)"
proof -
  from assms(2,3) have "\<forall>d\<in>set (deps t). d \<in> set names \<longrightarrow> index_of d names \<le> index"
    by (simp add: settled_at_def)
  from scan_deps_settled [OF this] obtain lg' where
    "scan_deps w (names ! index) index names (deps t) lg = (lg', None)" by blast
  from settle_stop [of index names "{}" tm t w lg lg'] assms(1,2) this show ?thesis by simp
qed

lemma for_index_settled:
  "n \<le> length names \<Longrightarrow> \<forall>i<n. settled_at tm names i \<Longrightarrow> \<forall>m\<in>set names. tm m \<noteq> None \<Longrightarrow>
     \<exists>lg'. for_index tm w [k..<n] names lg = (lg', Inr names)"
proof (induction "n - k" arbitrary: k lg)
  case 0
  then have "n \<le> k" by simp
  then show ?case by simp
next
  case (Suc m)
  then have kn: "k < n" by simp
  then have u: "[k..<n] = k # [Suc k..<n]" by (rule upt_conv_Cons)
  from kn Suc.prems(1) have kl: "k < length names" by simp
  then have "names ! k \<in> set names" by simp
  with Suc.prems(3) obtain t where t: "tm (names ! k) = Some t" by blast
  from Suc.prems(2) kn have "settled_at tm names k" by simp
  from settle_settled [OF kl t this] obtain lg1 where
    st: "settle tm w k names {} lg = (lg1, Inr names)" by blast
  have "m = n - Suc k" using Suc.hyps(2) by simp
  from Suc.hyps(1) [OF this Suc.prems] obtain lg' where
    "for_index tm w [Suc k..<n] names lg1 = (lg', Inr names)" by blast
  with u st show ?case by simp
qed

lemma make_thingmap_map:
  assumes "\<forall>n\<in>set ns. name (f n) = n" "n \<in> set ns"
  shows "make_thingmap (map f ns) n = Some (f n)"
proof -
  have "zip (map name (map f ns)) (map f ns) = map (\<lambda>n. (n, f n)) ns"
    using assms(1) by (induction ns) simp_all
  then have "make_thingmap (map f ns) = map_of (map (\<lambda>n. (n, f n)) (rev ns))"
    by (simp add: make_thingmap_def rev_map)
  also have "\<dots> = (Some \<circ> f) |` set (rev ns)" by (rule map_of_map_restrict)
  finally show ?thesis using assms(2) by simp
qed

lemma settled_at_cong:
  "tm' (names ! k) = tm (names ! k) \<Longrightarrow> settled_at tm' names k = settled_at tm names k"
  by (simp add: settled_at_def)

lemma solve_dependencies_settled:
  assumes s: "\<forall>i<length out. settled_at (make_thingmap out) (map name out) i"
    and d: "\<forall>t\<in>set out. make_thingmap out (name t) = Some t"
  shows "\<exists>lg. solve_dependencies out w = (lg, Inr out)"
proof -
  let ?names = "map name out" and ?tm = "make_thingmap out"
  have dom: "\<forall>n\<in>set ?names. ?tm n \<noteq> None" using d by auto
  have "\<exists>lg'. for_index ?tm w [0..<length ?names] ?names [] = (lg', Inr ?names)"
    using s dom by (intro for_index_settled) simp_all
  then obtain lg' where f: "for_index ?tm w [0..<length ?names] ?names [] = (lg', Inr ?names)"
    by blast
  have "lookup_all ?tm ?names = Inr (map (\<lambda>n. the (?tm n)) ?names)"
    using dom by (rule lookup_all_total)
  also have "map (\<lambda>n. the (?tm n)) ?names = out"
    using d by (simp add: comp_def map_idI)
  finally show ?thesis using f by (simp add: solve_dependencies_def)
qed

text \<open>
  C3: \<open>solve_dependencies\<close> is idempotent. When it succeeds, running it again on its
  own output, with the warning flag set either way, succeeds and returns that output
  in the same order.
\<close>

theorem solve_dependencies_idempotent:
  assumes r: "solve_dependencies things warn_missing = (lg, Inr out)"
  shows "\<exists>lg'. solve_dependencies out warn_missing' = (lg', Inr out)"
proof -
  let ?tm = "make_thingmap things"
  let ?f = "\<lambda>n. the (?tm n)"
  from solve_dependencies_Inr [OF r] obtain names' where
    s: "\<forall>i<length names'. settled_at ?tm names' i"
    and dm: "\<forall>n\<in>set names'. ?tm n \<noteq> None"
    and o: "out = map ?f names'"
    and n: "map name out = names'" by blast
  from n o have "map (\<lambda>n. name (?f n)) names' = map (\<lambda>n. n) names'" by (simp add: comp_def)
  then have nm: "\<forall>n\<in>set names'. name (?f n) = n" by (simp only: map_eq_conv)
  have tm': "make_thingmap out n = ?tm n" if "n \<in> set names'" for n
  proof -
    from make_thingmap_map [OF nm that] o have "make_thingmap out n = Some (?f n)" by simp
    with dm that show ?thesis by auto
  qed
  have d: "\<forall>t\<in>set out. make_thingmap out (name t) = Some t"
  proof
    fix t assume "t \<in> set out"
    with o obtain n where "n \<in> set names'" "t = ?f n" by auto
    with make_thingmap_map [OF nm this(1)] nm o show "make_thingmap out (name t) = Some t"
      by simp
  qed
  have "\<forall>i<length out. settled_at (make_thingmap out) (map name out) i"
  proof (intro allI impI)
    fix i assume "i < length out"
    with o have i: "i < length names'" by simp
    then have "names' ! i \<in> set names'" by simp
    then have "make_thingmap out (names' ! i) = ?tm (names' ! i)" by (rule tm')
    then have "settled_at (make_thingmap out) names' i = settled_at ?tm names' i"
      by (rule settled_at_cong)
    with s i n show "settled_at (make_thingmap out) (map name out) i" by simp
  qed
  from solve_dependencies_settled [OF this d] show ?thesis .
qed

theorem solve_dependencies_idempotent_witness:
  "\<exists>lg'. solve_dependencies
      [\<lparr>name = ''a'', deps = []\<rparr>, \<lparr>name = ''c'', deps = [''a'', ''zz'']\<rparr>,
       \<lparr>name = ''b'', deps = [''a'']\<rparr>] False
    = (lg', Inr [\<lparr>name = ''a'', deps = []\<rparr>, \<lparr>name = ''c'', deps = [''a'', ''zz'']\<rparr>,
       \<lparr>name = ''b'', deps = [''a'']\<rparr>])"
proof -
  have "solve_dependencies
      [\<lparr>name = ''c'', deps = [''a'', ''zz'']\<rparr>, \<lparr>name = ''a'', deps = []\<rparr>,
       \<lparr>name = ''b'', deps = [''a'']\<rparr>] True
    = ([(''c'', ''zz'')],
       Inr [\<lparr>name = ''a'', deps = []\<rparr>, \<lparr>name = ''c'', deps = [''a'', ''zz'']\<rparr>,
       \<lparr>name = ''b'', deps = [''a'']\<rparr>])"
    by code_simp
  from solve_dependencies_idempotent [OF this, of False] show ?thesis .
qed





















section \<open>Assets and bundles\<close>

subsection \<open>String methods of Python\<close>

text \<open>\<open>s.startswith(p)\<close> and \<open>s.endswith(p)\<close>; with a tuple of strings, any of them.\<close>

definition startswith :: "string \<Rightarrow> string \<Rightarrow> bool" where
  "startswith s p \<longleftrightarrow> take (length p) s = p"

definition endswith :: "string \<Rightarrow> string \<Rightarrow> bool" where
  "endswith s p \<longleftrightarrow> length p \<le> length s \<and> drop (length s - length p) s = p"

definition startswith_any :: "string \<Rightarrow> string list \<Rightarrow> bool" where
  "startswith_any s ps \<longleftrightarrow> list_ex (startswith s) ps"

definition endswith_any :: "string \<Rightarrow> string list \<Rightarrow> bool" where
  "endswith_any s ps \<longleftrightarrow> list_ex (endswith s) ps"

text \<open>\<open>s.lower()\<close>, on the letters \<open>A\<close> to \<open>Z\<close>; every other character is kept.\<close>

definition lower_char :: "char \<Rightarrow> char" where
  "lower_char c =
     (if CHR ''A'' \<le> c \<and> c \<le> CHR ''Z'' then char_of (of_char c + (32 :: nat)) else c)"

definition lower :: "string \<Rightarrow> string" where
  "lower s = map lower_char s"

text \<open>\<open>s.split(sep)\<close> for a separator of one character: never the empty list.\<close>

fun split_char :: "char \<Rightarrow> string \<Rightarrow> string list" where
  "split_char sep [] = [[]]"
| "split_char sep (c # cs) =
     (if c = sep then [] # split_char sep cs
      else (case split_char sep cs of
              [] \<Rightarrow> [[c]]
            | w # ws \<Rightarrow> (c # w) # ws))"

text \<open>
  \<open>s.rsplit(sep, 1)[0]\<close>: the part before the last \<open>sep\<close>, and all of \<open>s\<close> when it
  has no \<open>sep\<close>.
\<close>

definition rsplit1_head :: "char \<Rightarrow> string \<Rightarrow> string" where
  "rsplit1_head sep s =
     (if sep \<in> set s then rev (tl (dropWhile (\<lambda>c. c \<noteq> sep) (rev s))) else s)"

text \<open>\<open>s.replace(a, b)\<close> for single characters.\<close>

definition replace_char :: "char \<Rightarrow> char \<Rightarrow> string \<Rightarrow> string" where
  "replace_char a b s = map (\<lambda>c. if c = a then b else c) s"

definition url_starts :: "string list" where
  "url_starts = [''https://'', ''http://'']"

subsection \<open>Asset\<close>

text \<open>
  The Python values that reach \<open>Asset\<close>: \<open>None\<close>, a \<open>str\<close>, some other value that is
  neither a string nor callable (an \<open>int\<close> here), and a callable of no arguments.
  \<open>PyFunc f\<close> returns \<open>f k\<close> when it is invoked for the \<open>k\<close>-th time, counted from 0, so
  a function may answer differently each time; a function that raises is not
  modelled.
\<close>

datatype pyobj = PyNone | PyStr string | PyInt int | PyFunc "nat \<Rightarrow> pyobj"

text \<open>
  The fields \<open>_name\<close>, \<open>_remote\<close>, \<open>_source_str\<close> and \<open>_source\<close>. The instance counter
  \<open>i\<close>, used by \<open>__repr__\<close> only, is left out.
\<close>

record asset =
  asset_name :: string
  asset_remote :: bool
  asset_source_str :: pyobj
  asset_source :: pyobj

text \<open>The second half of \<open>Asset.__init__\<close>: the suffix check and \<open># Handle source\<close>.\<close>

definition handle_source :: "string \<Rightarrow> pyobj \<Rightarrow> error + asset" where
  "handle_source nm source =
     (if \<not> endswith_any (lower nm) [''.js'', ''.css'']
      then Inl (ValueError ''Asset name must end in .js or .css.'')
      else (case source of
          PyNone \<Rightarrow> Inl (TypeError ''Asset needs a source.'')
        | PyStr s \<Rightarrow>
            (if startswith_any s url_starts
             then Inr \<lparr>asset_name = nm, asset_remote = True, asset_source_str = PyNone,
                       asset_source = source\<rparr>
             else if startswith s ''file://''
             then Inl (TypeError (''Cannot specify an asset using '' @ [CHR 0x22] @ ''file://''
                        @ [CHR 0x22] @ '', use http or open the file and use contents.''))
             else Inr \<lparr>asset_name = nm, asset_remote = False, asset_source_str = PyStr s,
                       asset_source = source\<rparr>)
        | PyFunc f \<Rightarrow>
            Inr \<lparr>asset_name = nm, asset_remote = False, asset_source_str = PyNone,
                 asset_source = source\<rparr>
        | PyInt n \<Rightarrow> Inl (TypeError ''Asset source must be str or callable.'')))"

text \<open>\<open>Asset.__init__(self, name, source=None)\<close>\<close>

definition Asset_init :: "pyobj \<Rightarrow> pyobj \<Rightarrow> error + asset" where
  "Asset_init name_arg source =
     (case name_arg of
        PyStr nm \<Rightarrow>
          (if startswith_any nm url_starts
           then (case source of
                   PyNone \<Rightarrow>
                     handle_source (last (split_char CHR ''/'' (replace_char (CHR 0x5C) CHR ''/'' nm)))
                       (PyStr nm)
                 | _ \<Rightarrow> Inl (TypeError (''Remote assets cannot have a source: '' @ nm)))
           else handle_source nm source)
      | _ \<Rightarrow> Inl (TypeError ''Asset name must be str.''))"

text \<open>
  \<open>_get_from_url\<close>; \<open>urlopen\<close> stands for the request with its timeout, the read and the
  decoding, and gives the text or the error of the network layer.
\<close>

definition get_from_url :: "(string \<Rightarrow> error + string) \<Rightarrow> pyobj \<Rightarrow> error + string" where
  "get_from_url urlopen url =
     (case url of
        PyStr u \<Rightarrow>
          (if startswith_any u url_starts then urlopen u
           else Inl (ValueError ''_get_from_url() needs a URL string.''))
      | _ \<Rightarrow> Inl AttributeError)"

text \<open>
  \<open>Asset.to_string\<close>. The state is the asset and the number of times its source
  function has been invoked so far; the result comes with the new state.
\<close>

definition to_string ::
  "(string \<Rightarrow> error + string) \<Rightarrow> asset \<Rightarrow> nat \<Rightarrow> (error + pyobj) \<times> asset \<times> nat" where
  "to_string urlopen a calls =
     (case asset_source_str a of
        PyNone \<Rightarrow>
          (case asset_source a of
             PyFunc f \<Rightarrow>
               (let a' = a\<lparr>asset_source_str := f calls\<rparr>
                in (case f calls of
                      PyStr s \<Rightarrow> (Inr (PyStr s), a', Suc calls)
                    | _ \<Rightarrow> (Inl (ValueError
                          ''Source function of asset %r did not return a str, but a %s.''),
                        a', Suc calls)))
           | src \<Rightarrow>
               (if asset_remote a
                then (case get_from_url urlopen src of
                        Inl e \<Rightarrow> (Inl e, a, calls)
                      | Inr s \<Rightarrow> (Inr (PyStr s), a\<lparr>asset_source_str := PyStr s\<rparr>, calls))
                else (Inl (AssertionError ''This should not happen''), a, calls)))
      | v \<Rightarrow> (Inr v, a, calls))"

text \<open>\<open>n\<close> calls of \<open>to_string\<close> one after the other, with the results in order.\<close>

fun to_string_seq ::
  "(string \<Rightarrow> error + string) \<Rightarrow> nat \<Rightarrow> asset \<Rightarrow> nat \<Rightarrow> (error + pyobj) list \<times> asset \<times> nat" where
  "to_string_seq urlopen 0 a calls = ([], a, calls)"
| "to_string_seq urlopen (Suc n) a calls =
     (case to_string urlopen a calls of
        (r, a', calls') \<Rightarrow>
          (case to_string_seq urlopen n a' calls' of
             (rs, a'', calls'') \<Rightarrow> (r # rs, a'', calls'')))"

text \<open>A source function that returns \<open>None\<close> every time, and a network that is down.\<close>

definition returns_None :: "nat \<Rightarrow> pyobj" where
  "returns_None k = PyNone"

definition no_network :: "string \<Rightarrow> error + string" where
  "no_network u = Inl URLError"

text \<open>
  C8: an asset made from the name \<open>https://example.com/x.js\<close> alone is remote and has
  the name \<open>x.js\<close>; and a name that starts like a URL, given together with a source
  that is not \<open>None\<close>, is refused with a \<open>TypeError\<close>, whatever the name and the source.
\<close>

theorem Asset_init_remote:
  "Asset_init (PyStr ''https://example.com/x.js'') PyNone
     = Inr \<lparr>asset_name = ''x.js'', asset_remote = True, asset_source_str = PyNone,
            asset_source = PyStr ''https://example.com/x.js''\<rparr>
   \<and> (startswith_any nm url_starts \<and> source \<noteq> PyNone \<longrightarrow>
        Asset_init (PyStr nm) source
          = Inl (TypeError (''Remote assets cannot have a source: '' @ nm)))"
proof
  have u: "startswith_any ''https://example.com/x.js'' url_starts" by code_simp
  have n: "last (split_char CHR ''/'' (replace_char (CHR 0x5C) CHR ''/'' ''https://example.com/x.js''))
      = ''x.js''" by code_simp
  have e: "endswith_any (lower ''x.js'') [''.js'', ''.css'']" by code_simp
  show "Asset_init (PyStr ''https://example.com/x.js'') PyNone
     = Inr \<lparr>asset_name = ''x.js'', asset_remote = True, asset_source_str = PyNone,
            asset_source = PyStr ''https://example.com/x.js''\<rparr>"
    by (simp add: Asset_init_def handle_source_def u n e)
  show "startswith_any nm url_starts \<and> source \<noteq> PyNone \<longrightarrow>
        Asset_init (PyStr nm) source
          = Inl (TypeError (''Remote assets cannot have a source: '' @ nm))"
    by (cases source) (simp_all add: Asset_init_def)
qed

theorem Asset_init_remote_witness:
  "Asset_init (PyStr ''http://cdn.example.org/lib.css'') (PyStr ''body{}'')
     = Inl (TypeError ''Remote assets cannot have a source: http://cdn.example.org/lib.css'')"
proof -
  have "startswith_any ''http://cdn.example.org/lib.css'' url_starts" by code_simp
  then have "startswith_any ''http://cdn.example.org/lib.css'' url_starts \<and> PyStr ''body{}'' \<noteq> PyNone"
    by simp
  with Asset_init_remote [of "''http://cdn.example.org/lib.css''" "PyStr ''body{}''"]
  show ?thesis by simp
qed

lemma Asset_init_PyFunc:
  assumes "Asset_init name_arg (PyFunc f) = Inr a"
  shows "asset_source_str a = PyNone \<and> asset_source a = PyFunc f"
proof (cases name_arg)
  case (PyStr nm)
  with assms have "handle_source nm (PyFunc f) = Inr a"
    by (simp add: Asset_init_def split: if_splits)
  then show ?thesis by (auto simp: handle_source_def split: if_splits)
qed (use assms in \<open>simp_all add: Asset_init_def\<close>)

lemma to_string_materialized:
  "asset_source_str b = PyStr s \<Longrightarrow> to_string urlopen b c = (Inr (PyStr s), b, c)"
  by (simp add: to_string_def)

lemma to_string_seq_materialized:
  "asset_source_str b = PyStr s \<Longrightarrow>
     to_string_seq urlopen n b c = (replicate n (Inr (PyStr s)), b, c)"
  by (induction n) (simp_all add: to_string_materialized)

text \<open>
  C9 as stated fails: a source function that returns \<open>None\<close> is invoked by every call
  of \<open>to_string\<close>, not once. The asset below is what \<open>Asset.__init__\<close> builds; each of
  two calls raises and counts one more invocation, and the asset is left as it was.
\<close>

theorem to_string_None_counterexample:
  "Asset_init (PyStr ''a.js'') (PyFunc returns_None)
     = Inr \<lparr>asset_name = ''a.js'', asset_remote = False, asset_source_str = PyNone,
            asset_source = PyFunc returns_None\<rparr>
   \<and> to_string no_network \<lparr>asset_name = ''a.js'', asset_remote = False,
         asset_source_str = PyNone, asset_source = PyFunc returns_None\<rparr> 0
     = (Inl (ValueError ''Source function of asset %r did not return a str, but a %s.''),
        \<lparr>asset_name = ''a.js'', asset_remote = False, asset_source_str = PyNone,
         asset_source = PyFunc returns_None\<rparr>, 1)
   \<and> to_string no_network \<lparr>asset_name = ''a.js'', asset_remote = False,
         asset_source_str = PyNone, asset_source = PyFunc returns_None\<rparr> 1
     = (Inl (ValueError ''Source function of asset %r did not return a str, but a %s.''),
        \<lparr>asset_name = ''a.js'', asset_remote = False, asset_source_str = PyNone,
         asset_source = PyFunc returns_None\<rparr>, 2)"
proof -
  have u: "\<not> startswith_any ''a.js'' url_starts" by code_simp
  have e: "endswith_any (lower ''a.js'') [''.js'', ''.css'']" by code_simp
  show ?thesis
    by (simp add: Asset_init_def handle_source_def u e to_string_def returns_None_def)
qed

text \<open>
  C9, amended. For an asset whose source is a function of no arguments, construction
  leaves the content unmaterialized. If the first invocation of the function returns
  text, then in any sequence of one or more calls of \<open>to_string\<close> the function is
  invoked once, every call returns that text, and the content is materialized from the
  first call on. If the first invocation returns something that is not text, the first
  \<open>to_string\<close> invokes the function and raises the \<open>ValueError\<close>: at the first
  materialization, not at construction.
\<close>

theorem to_string_function_source:
  assumes "Asset_init name_arg (PyFunc f) = Inr a"
  shows "asset_source_str a = PyNone
     \<and> (f calls = PyStr s \<longrightarrow>
          to_string_seq urlopen (Suc n) a calls
            = (replicate (Suc n) (Inr (PyStr s)), a\<lparr>asset_source_str := PyStr s\<rparr>, Suc calls))
     \<and> ((\<forall>s. f calls \<noteq> PyStr s) \<longrightarrow>
          fst (to_string urlopen a calls)
            = Inl (ValueError ''Source function of asset %r did not return a str, but a %s.'')
          \<and> snd (snd (to_string urlopen a calls)) = Suc calls)"
proof -
  from Asset_init_PyFunc [OF assms] have n: "asset_source_str a = PyNone"
    and f: "asset_source a = PyFunc f" by simp_all
  have 1: "to_string_seq urlopen (Suc n) a calls
            = (replicate (Suc n) (Inr (PyStr s)), a\<lparr>asset_source_str := PyStr s\<rparr>, Suc calls)"
    if "f calls = PyStr s"
  proof -
    from that n f have "to_string urlopen a calls
        = (Inr (PyStr s), a\<lparr>asset_source_str := PyStr s\<rparr>, Suc calls)"
      by (simp add: to_string_def)
    moreover have "to_string_seq urlopen n (a\<lparr>asset_source_str := PyStr s\<rparr>) (Suc calls)
        = (replicate n (Inr (PyStr s)), a\<lparr>asset_source_str := PyStr s\<rparr>, Suc calls)"
      by (rule to_string_seq_materialized) simp
    ultimately show ?thesis by simp
  qed
  have 2: "fst (to_string urlopen a calls)
            = Inl (ValueError ''Source function of asset %r did not return a str, but a %s.'')
          \<and> snd (snd (to_string urlopen a calls)) = Suc calls"
    if "\<forall>s. f calls \<noteq> PyStr s"
    using that n f by (cases "f calls") (simp_all add: to_string_def)
  from n 1 2 show ?thesis by blast
qed

theorem to_string_function_source_witness:
  "to_string_seq no_network 3 \<lparr>asset_name = ''a.js'', asset_remote = False,
         asset_source_str = PyNone, asset_source = PyFunc (\<lambda>k. PyStr ''hi'')\<rparr> 0
     = ([Inr (PyStr ''hi''), Inr (PyStr ''hi''), Inr (PyStr ''hi'')],
        \<lparr>asset_name = ''a.js'', asset_remote = False, asset_source_str = PyStr ''hi'',
         asset_source = PyFunc (\<lambda>k. PyStr ''hi'')\<rparr>, 1)
   \<and> fst (to_string no_network \<lparr>asset_name = ''a.js'', asset_remote = False,
         asset_source_str = PyNone, asset_source = PyFunc (\<lambda>k. PyInt 7)\<rparr> 0)
     = Inl (ValueError ''Source function of asset %r did not return a str, but a %s.'')
   \<and> snd (snd (to_string no_network \<lparr>asset_name = ''a.js'', asset_remote = False,
         asset_source_str = PyNone, asset_source = PyFunc (\<lambda>k. PyInt 7)\<rparr> 0)) = 1"
proof -
  have u: "\<not> startswith_any ''a.js'' url_starts" by code_simp
  have e: "endswith_any (lower ''a.js'') [''.js'', ''.css'']" by code_simp
  have i: "Asset_init (PyStr ''a.js'') (PyFunc (\<lambda>k. PyStr ''hi''))
     = Inr \<lparr>asset_name = ''a.js'', asset_remote = False, asset_source_str = PyNone,
            asset_source = PyFunc (\<lambda>k. PyStr ''hi'')\<rparr>"
    by (simp add: Asset_init_def handle_source_def u e)
  have j: "Asset_init (PyStr ''a.js'') (PyFunc (\<lambda>k. PyInt 7))
     = Inr \<lparr>asset_name = ''a.js'', asset_remote = False, asset_source_str = PyNone,
            asset_source = PyFunc (\<lambda>k. PyInt 7)\<rparr>"
    by (simp add: Asset_init_def handle_source_def u e)
  from to_string_function_source [OF i, where calls = 0 and s = "''hi''"
      and urlopen = no_network and n = 2]
  have 1: "to_string_seq no_network 3 \<lparr>asset_name = ''a.js'', asset_remote = False,
         asset_source_str = PyNone, asset_source = PyFunc (\<lambda>k. PyStr ''hi'')\<rparr> 0
     = ([Inr (PyStr ''hi''), Inr (PyStr ''hi''), Inr (PyStr ''hi'')],
        \<lparr>asset_name = ''a.js'', asset_remote = False, asset_source_str = PyStr ''hi'',
         asset_source = PyFunc (\<lambda>k. PyStr ''hi'')\<rparr>, 1)"
    by (simp add: numeral_3_eq_3)
  from to_string_function_source [OF j, where calls = 0 and urlopen = no_network]
  have 2: "fst (to_string no_network \<lparr>asset_name = ''a.js'', asset_remote = False,
         asset_source_str = PyNone, asset_source = PyFunc (\<lambda>k. PyInt 7)\<rparr> 0)
     = Inl (ValueError ''Source function of asset %r did not return a str, but a %s.'')
   \<and> snd (snd (to_string no_network \<lparr>asset_name = ''a.js'', asset_remote = False,
         asset_source_str = PyNone, asset_source = PyFunc (\<lambda>k. PyInt 7)\<rparr> 0)) = 1"
    by simp
  from 1 2 show ?thesis by (intro conjI) simp_all
qed

subsection \<open>Bundle\<close>

text \<open>
  A bundle is an asset with the fields \<open>_assets\<close>, \<open>_module_name\<close>, \<open>_modules\<close>, \<open>_deps\<close>
  and \<open>_need_sort\<close>. A module is used through its \<open>name\<close> and \<open>deps\<close> only.
\<close>

record Bundle = asset +
  bundle_assets :: "asset list"
  bundle_module_name :: string
  bundle_modules :: "thing list"
  bundle_deps :: "string set"
  bundle_need_sort :: bool

text \<open>
  \<open>Bundle.__init__(self, name)\<close>: the asset is made with the source \<open>''\<close>; the module
  name is \<open>name.rsplit('.', 1)[0].split('-')[0]\<close>.
\<close>

definition Bundle_init :: "pyobj \<Rightarrow> error + Bundle" where
  "Bundle_init name_arg =
     (case Asset_init name_arg (PyStr []) of
        Inl e \<Rightarrow> Inl e
      | Inr a \<Rightarrow>
          (case name_arg of
             PyStr nm \<Rightarrow>
               Inr \<lparr>asset_name = asset_name a, asset_remote = asset_remote a,
                    asset_source_str = asset_source_str a, asset_source = asset_source a,
                    bundle_assets = [],
                    bundle_module_name = hd (split_char CHR ''-'' (rsplit1_head CHR ''.'' nm)),
                    bundle_modules = [], bundle_deps = {}, bundle_need_sort = False\<rparr>
           | _ \<Rightarrow> Inl (TypeError ''Asset name must be str.'')))"

text \<open>
  The loop \<open>while '.' in dep: deps.add(dep); dep = dep.rsplit('.', 1)[0]\<close> followed by
  \<open>deps.add(dep)\<close>, on the set \<open>deps\<close>.
\<close>

function expand_dep :: "string \<Rightarrow> string set \<Rightarrow> string set" where
  "expand_dep dep acc =
     (if CHR ''.'' \<in> set dep then expand_dep (rsplit1_head CHR ''.'' dep) (insert dep acc)
      else insert dep acc)"
  by pat_completeness auto

lemma rsplit1_head_split:
  assumes "sep \<in> set s"
  shows "\<exists>rest. s = rsplit1_head sep s @ sep # rest \<and> sep \<notin> set rest"
proof -
  from assms have m: "sep \<in> set (rev s)" by simp
  define r where "r = takeWhile (\<lambda>c. c \<noteq> sep) (rev s)"
  define d where "d = dropWhile (\<lambda>c. c \<noteq> sep) (rev s)"
  have rs: "rev s = r @ d" by (simp add: r_def d_def)
  from m have "d \<noteq> []" by (auto simp: d_def)
  moreover have "d \<noteq> [] \<Longrightarrow> hd d = sep"
    unfolding d_def using hd_dropWhile [of "\<lambda>c. c \<noteq> sep" "rev s"] by auto
  ultimately have dd: "d = sep # tl d" by (cases d) auto
  have "sep \<notin> set r" unfolding r_def by (auto dest: set_takeWhileD)
  moreover have "s = rev (tl d) @ sep # rev r"
  proof -
    have "s = rev (rev s)" by simp
    also have "\<dots> = rev (r @ sep # tl d)" using rs dd by simp
    finally show ?thesis by simp
  qed
  moreover have "rsplit1_head sep s = rev (tl d)" using assms by (simp add: rsplit1_head_def d_def)
  ultimately show ?thesis by (intro exI [of _ "rev r"]) simp
qed

lemma length_rsplit1_head:
  "sep \<in> set s \<Longrightarrow> length (rsplit1_head sep s) < length s"
proof -
  assume "sep \<in> set s"
  from rsplit1_head_split [OF this] obtain rest where "s = rsplit1_head sep s @ sep # rest" by blast
  then have "length s = length (rsplit1_head sep s @ sep # rest)" by simp
  then show ?thesis by simp
qed

termination expand_dep
  by (relation "measure (\<lambda>(dep, acc). length dep)") (simp_all add: length_rsplit1_head)

declare expand_dep.simps [simp del]

text \<open>
  \<open>Bundle.add_module(self, m)\<close>. A module outside the namespace raises before the
  bundle is touched.
\<close>

definition add_module :: "thing \<Rightarrow> Bundle \<Rightarrow> error + Bundle" where
  "add_module m b =
     (let ext = CHR ''.'' # lower (last (split_char CHR ''.'' (asset_name b))) in
      if \<not> startswith (name m) (bundle_module_name b)
      then Inl (ValueError (''Module '' @ name m @ '' does not belong in bundle ''
                  @ asset_name b @ ''.''))
      else
        (let ds = fold expand_dep (deps m) {};
             keep = Set.filter (\<lambda>dep. \<not> (startswith dep (bundle_module_name b)
                       \<or> startswith (bundle_module_name b) (dep @ ''.''))) ds
         in Inr (b\<lparr>bundle_modules := bundle_modules b @ [m],
                   bundle_need_sort := True,
                   bundle_deps := bundle_deps b \<union> (\<lambda>dep. dep @ ext) ` keep\<rparr>)))"

text \<open>
  The property \<open>Bundle.modules\<close>: the tuple it returns, or the error of
  \<open>solve_dependencies\<close>, and the bundle after the read. \<open>sorted(..., key=f)\<close> is a
  stable sort by name. No statement of the property assigns \<open>_need_sort\<close>.
\<close>

definition modules :: "Bundle \<Rightarrow> (error + thing list) \<times> Bundle" where
  "modules b =
     (if bundle_need_sort b
      then (case snd (solve_dependencies (sort_key name (bundle_modules b)) False) of
              Inl e \<Rightarrow> (Inl e, b)
            | Inr ms \<Rightarrow> (Inr ms, b\<lparr>bundle_modules := ms\<rparr>))
      else (Inr (bundle_modules b), b))"

lemma Asset_init_pkg: "Asset_init (PyStr ''pkg.js'') (PyStr []) =
  Inr \<lparr>asset_name = ''pkg.js'', asset_remote = False, asset_source_str = PyStr [],
        asset_source = PyStr []\<rparr>"
proof -
  have u: "\<not> startswith_any ''pkg.js'' url_starts" by code_simp
  have e: "endswith_any (lower ''pkg.js'') [''.js'', ''.css'']" by code_simp
  have v: "\<not> startswith_any [] url_starts" by code_simp
  have f: "\<not> startswith [] ''file://''" by code_simp
  show ?thesis by (simp add: Asset_init_def handle_source_def u e v f)
qed

text \<open>
  C7: reading \<open>modules\<close> does not clear \<open>_need_sort\<close>. The read leaves the flag as
  it finds it, for every bundle. For the bundle \<open>pkg.js\<close> with the one module \<open>pkg.a\<close>
  added, the read returns the module and the flag is still set afterwards, so the
  next read sorts again.
\<close>

theorem modules_keeps_need_sort:
  "bundle_need_sort (snd (modules b)) = bundle_need_sort b
   \<and> Bundle_init (PyStr ''pkg.js'')
       = Inr \<lparr>asset_name = ''pkg.js'', asset_remote = False, asset_source_str = PyStr [],
              asset_source = PyStr [], bundle_assets = [], bundle_module_name = ''pkg'',
              bundle_modules = [], bundle_deps = {}, bundle_need_sort = False\<rparr>
   \<and> add_module \<lparr>name = ''pkg.a'', deps = []\<rparr>
        \<lparr>asset_name = ''pkg.js'', asset_remote = False, asset_source_str = PyStr [],
         asset_source = PyStr [], bundle_assets = [], bundle_module_name = ''pkg'',
         bundle_modules = [], bundle_deps = {}, bundle_need_sort = False\<rparr>
       = Inr \<lparr>asset_name = ''pkg.js'', asset_remote = False, asset_source_str = PyStr [],
              asset_source = PyStr [], bundle_assets = [], bundle_module_name = ''pkg'',
              bundle_modules = [\<lparr>name = ''pkg.a'', deps = []\<rparr>], bundle_deps = {},
              bundle_need_sort = True\<rparr>
   \<and> modules \<lparr>asset_name = ''pkg.js'', asset_remote = False, asset_source_str = PyStr [],
         asset_source = PyStr [], bundle_assets = [], bundle_module_name = ''pkg'',
         bundle_modules = [\<lparr>name = ''pkg.a'', deps = []\<rparr>], bundle_deps = {},
         bundle_need_sort = True\<rparr>
       = (Inr [\<lparr>name = ''pkg.a'', deps = []\<rparr>],
          \<lparr>asset_name = ''pkg.js'', asset_remote = False, asset_source_str = PyStr [],
           asset_source = PyStr [], bundle_assets = [], bundle_module_name = ''pkg'',
           bundle_modules = [\<lparr>name = ''pkg.a'', deps = []\<rparr>], bundle_deps = {},
           bundle_need_sort = True\<rparr>)"
proof -
  have 1: "bundle_need_sort (snd (modules b)) = bundle_need_sort b"
    by (simp add: modules_def split: sum.split)
  have mn: "hd (split_char CHR ''-'' (rsplit1_head CHR ''.'' ''pkg.js'')) = ''pkg''" by code_simp
  have s: "startswith ''pkg.a'' ''pkg''" by code_simp
  have r: "snd (solve_dependencies (sort_key name [\<lparr>name = ''pkg.a'', deps = []\<rparr>]) False)
     = Inr [\<lparr>name = ''pkg.a'', deps = []\<rparr>]" by code_simp
  have 2: "Bundle_init (PyStr ''pkg.js'')
       = Inr \<lparr>asset_name = ''pkg.js'', asset_remote = False, asset_source_str = PyStr [],
              asset_source = PyStr [], bundle_assets = [], bundle_module_name = ''pkg'',
              bundle_modules = [], bundle_deps = {}, bundle_need_sort = False\<rparr>"
    by (simp add: Bundle_init_def Asset_init_pkg mn)
  have 3: "add_module \<lparr>name = ''pkg.a'', deps = []\<rparr>
        \<lparr>asset_name = ''pkg.js'', asset_remote = False, asset_source_str = PyStr [],
         asset_source = PyStr [], bundle_assets = [], bundle_module_name = ''pkg'',
         bundle_modules = [], bundle_deps = {}, bundle_need_sort = False\<rparr>
       = Inr \<lparr>asset_name = ''pkg.js'', asset_remote = False, asset_source_str = PyStr [],
              asset_source = PyStr [], bundle_assets = [], bundle_module_name = ''pkg'',
              bundle_modules = [\<lparr>name = ''pkg.a'', deps = []\<rparr>], bundle_deps = {},
              bundle_need_sort = True\<rparr>"
    by (simp add: add_module_def s)
  have 4: "modules \<lparr>asset_name = ''pkg.js'', asset_remote = False, asset_source_str = PyStr [],
         asset_source = PyStr [], bundle_assets = [], bundle_module_name = ''pkg'',
         bundle_modules = [\<lparr>name = ''pkg.a'', deps = []\<rparr>], bundle_deps = {},
         bundle_need_sort = True\<rparr>
       = (Inr [\<lparr>name = ''pkg.a'', deps = []\<rparr>],
          \<lparr>asset_name = ''pkg.js'', asset_remote = False, asset_source_str = PyStr [],
           asset_source = PyStr [], bundle_assets = [], bundle_module_name = ''pkg'',
           bundle_modules = [\<lparr>name = ''pkg.a'', deps = []\<rparr>], bundle_deps = {},
           bundle_need_sort = True\<rparr>)"
    using r by (simp add: modules_def)
  from 1 2 3 4 show ?thesis by (intro conjI)
qed

subsection \<open>The aggregate dependencies of a bundle, as the specification words them\<close>

text \<open>
  Every dotted-path prefix of a dependency, the dependency itself included: \<open>a.b.c\<close>
  yields \<open>a.b.c\<close>, \<open>a.b\<close> and \<open>a\<close>.
\<close>

definition dotted_prefixes :: "string \<Rightarrow> string set" where
  "dotted_prefixes dep =
     insert dep (set (map (\<lambda>k. take k dep) (filter (\<lambda>k. dep ! k = CHR ''.'') [0..<length dep])))"

text \<open>
  A name is inside the namespace when it starts with the namespace, or the namespace
  starts with it plus a separator.
\<close>

definition inside_namespace :: "string \<Rightarrow> string \<Rightarrow> bool" where
  "inside_namespace ns d \<longleftrightarrow> startswith d ns \<or> startswith ns (d @ ''.'')"

text \<open>
  The union over the modules of their dependencies, expanded, with the names inside
  the namespace discarded and the others suffixed with the extension.
\<close>

definition aggregate_deps :: "string \<Rightarrow> string \<Rightarrow> thing list \<Rightarrow> string set" where
  "aggregate_deps ns ext ms =
     (\<Union>m \<in> set ms. \<Union>dep \<in> set (deps m).
        (\<lambda>d. d @ ext) ` Set.filter (\<lambda>d. \<not> inside_namespace ns d) (dotted_prefixes dep))"

text \<open>The extension and the namespace of a bundle, from its name.\<close>

definition bundle_ext :: "string \<Rightarrow> string" where
  "bundle_ext nm = CHR ''.'' # lower (last (split_char CHR ''.'' nm))"

definition namespace :: "string \<Rightarrow> string" where
  "namespace nm = hd (split_char CHR ''-'' (rsplit1_head CHR ''.'' nm))"

text \<open>
  A sequence of \<open>add_module\<close> calls on one bundle. A call that raises leaves the
  bundle as it was, and the calls after it go on.
\<close>

fun add_modules :: "thing list \<Rightarrow> Bundle \<Rightarrow> Bundle" where
  "add_modules [] b = b"
| "add_modules (m # ms) b =
     (case add_module m b of Inl e \<Rightarrow> add_modules ms b | Inr b' \<Rightarrow> add_modules ms b')"

lemma dotted_prefixes_alt:
  "dotted_prefixes dep = insert dep {take k dep |k. k < length dep \<and> dep ! k = CHR ''.''}"
  by (auto simp: dotted_prefixes_def)

lemma dotted_prefixes_no_dot:
  "CHR ''.'' \<notin> set dep \<Longrightarrow> dotted_prefixes dep = {dep}"
  by (auto simp: dotted_prefixes_alt dest: nth_mem)

lemma dotted_prefixes_step:
  assumes "CHR ''.'' \<in> set dep"
  shows "dotted_prefixes dep = insert dep (dotted_prefixes (rsplit1_head CHR ''.'' dep))"
proof -
  define h where "h = rsplit1_head CHR ''.'' dep"
  from rsplit1_head_split [OF assms] obtain rest
    where d: "dep = h @ CHR ''.'' # rest" and r: "CHR ''.'' \<notin> set rest"
    unfolding h_def by blast
  have "{take k dep |k. k < length dep \<and> dep ! k = CHR ''.''}
      = insert h {take k h |k. k < length h \<and> h ! k = CHR ''.''}" (is "?L = ?R")
  proof (rule set_eqI)
    fix x
    show "x \<in> ?L \<longleftrightarrow> x \<in> ?R"
    proof
      assume "x \<in> ?L"
      then obtain k where k: "k < length dep" "dep ! k = CHR ''.''" "x = take k dep" by blast
      consider "k < length h" | "k = length h" | "k > length h" by linarith
      then show "x \<in> ?R"
      proof cases
        case 1
        with k d have "h ! k = CHR ''.''" "x = take k h" by (simp_all add: nth_append)
        with 1 show ?thesis by blast
      next
        case 2
        with k d have "x = h" by simp
        then show ?thesis by simp
      next
        case 3
        then obtain i where i: "k = length h + Suc i" using less_imp_Suc_add by auto
        with k d have "rest ! i = CHR ''.''" "i < length rest"
          by (simp_all add: nth_append)
        with r show ?thesis by (metis nth_mem)
      qed
    next
      assume "x \<in> ?R"
      then consider "x = h" | k where "k < length h" "h ! k = CHR ''.''" "x = take k h" by blast
      then show "x \<in> ?L"
      proof cases
        case 1
        have "length h < length dep" "dep ! length h = CHR ''.''" "take (length h) dep = h"
          using d by (simp_all add: nth_append)
        with 1 have "x = take (length h) dep \<and> length h < length dep
            \<and> dep ! length h = CHR ''.''" by simp
        then show ?thesis by (intro CollectI exI [of _ "length h"])
      next
        case 2
        with d have "x = take k dep \<and> k < length dep \<and> dep ! k = CHR ''.''"
          by (simp add: nth_append)
        then show ?thesis by (intro CollectI exI [of _ k])
      qed
    qed
  qed
  then show ?thesis unfolding h_def [symmetric] dotted_prefixes_alt by blast
qed

lemma expand_dep_prefixes: "expand_dep dep acc = acc \<union> dotted_prefixes dep"
proof (induction dep acc rule: expand_dep.induct)
  case (1 dep acc)
  show ?case
  proof (cases "CHR ''.'' \<in> set dep")
    case True
    with "1.IH" have "expand_dep dep acc
        = insert dep acc \<union> dotted_prefixes (rsplit1_head CHR ''.'' dep)"
      by (subst expand_dep.simps) simp
    with dotted_prefixes_step [OF True] show ?thesis by blast
  next
    case False
    then have "expand_dep dep acc = insert dep acc" by (subst expand_dep.simps) simp
    with dotted_prefixes_no_dot [OF False] show ?thesis by blast
  qed
qed

lemma fold_expand_dep:
  "fold expand_dep ds acc = acc \<union> (\<Union>dep \<in> set ds. dotted_prefixes dep)"
  by (induction ds arbitrary: acc) (auto simp: expand_dep_prefixes)

lemma aggregate_deps_Nil: "aggregate_deps ns ext [] = {}"
  by (simp add: aggregate_deps_def)

lemma aggregate_deps_snoc:
  "aggregate_deps ns ext (ms @ [m]) = aggregate_deps ns ext ms
     \<union> (\<lambda>d. d @ ext) ` Set.filter (\<lambda>d. \<not> inside_namespace ns d)
          (\<Union>dep \<in> set (deps m). dotted_prefixes dep)"
  by (auto simp: aggregate_deps_def)

text \<open>What one call of \<open>add_module\<close> does, in the words of the specification.\<close>

lemma add_module_Inr:
  assumes "startswith (name m) (bundle_module_name b)"
  shows "add_module m b = Inr (b\<lparr>bundle_modules := bundle_modules b @ [m],
            bundle_need_sort := True,
            bundle_deps := bundle_deps b
              \<union> (\<lambda>d. d @ bundle_ext (asset_name b)) ` Set.filter
                  (\<lambda>d. \<not> inside_namespace (bundle_module_name b) d)
                  (\<Union>dep \<in> set (deps m). dotted_prefixes dep)\<rparr>)"
  using assms
  by (simp add: add_module_def Let_def fold_expand_dep bundle_ext_def inside_namespace_def)

lemma add_module_Inl:
  assumes "\<not> startswith (name m) (bundle_module_name b)"
  shows "add_module m b = Inl (ValueError (''Module '' @ name m @ '' does not belong in bundle ''
                  @ asset_name b @ ''.''))"
  using assms by (simp add: add_module_def Let_def)

definition deps_inv :: "string \<Rightarrow> thing list \<Rightarrow> Bundle \<Rightarrow> bool" where
  "deps_inv nm done b \<longleftrightarrow>
     asset_name b = nm \<and> bundle_module_name b = namespace nm
     \<and> bundle_modules b = filter (\<lambda>m. startswith (name m) (namespace nm)) done
     \<and> bundle_deps b = aggregate_deps (namespace nm) (bundle_ext nm) (bundle_modules b)"

lemma add_modules_inv:
  "deps_inv nm done b \<Longrightarrow> deps_inv nm (done @ ms) (add_modules ms b)"
proof (induction ms arbitrary: b "done")
  case Nil
  then show ?case by simp
next
  case (Cons m ms)
  show ?case
  proof (cases "startswith (name m) (bundle_module_name b)")
    case True
    let ?b = "b\<lparr>bundle_modules := bundle_modules b @ [m],
            bundle_need_sort := True,
            bundle_deps := bundle_deps b
              \<union> (\<lambda>d. d @ bundle_ext (asset_name b)) ` Set.filter
                  (\<lambda>d. \<not> inside_namespace (bundle_module_name b) d)
                  (\<Union>dep \<in> set (deps m). dotted_prefixes dep)\<rparr>"
    from True Cons.prems have "deps_inv nm (done @ [m]) ?b"
      by (simp add: deps_inv_def aggregate_deps_snoc)
    from Cons.IH [OF this] add_module_Inr [OF True] show ?thesis by simp
  next
    case False
    with Cons.prems have "deps_inv nm (done @ [m]) b" by (simp add: deps_inv_def)
    from Cons.IH [OF this] add_module_Inl [OF False] show ?thesis by simp
  qed
qed

lemma Bundle_init_inv:
  assumes "Bundle_init (PyStr nm) = Inr b"
  shows "deps_inv nm [] b"
proof -
  from assms obtain a where a: "Asset_init (PyStr nm) (PyStr []) = Inr a"
    by (auto simp: Bundle_init_def split: sum.splits)
  have u: "\<not> startswith_any nm url_starts"
    using a by (auto simp: Asset_init_def split: if_splits)
  with a have "handle_source nm (PyStr []) = Inr a" by (simp add: Asset_init_def)
  then have "asset_name a = nm" by (auto simp: handle_source_def split: if_splits)
  with assms a show ?thesis
    by (auto simp: Bundle_init_def deps_inv_def namespace_def aggregate_deps_Nil)
qed

lemma aggregate_deps_single:
  "aggregate_deps ns ext [m]
     = (\<lambda>d. d @ ext) ` Set.filter (\<lambda>d. \<not> inside_namespace ns d)
          (\<Union>dep \<in> set (deps m). dotted_prefixes dep)"
  by (auto simp: aggregate_deps_def)

lemma add_module_step:
  assumes "add_module m b = Inr b'"
  shows "startswith (name m) (bundle_module_name b)
       \<and> bundle_modules b' = bundle_modules b @ [m]
       \<and> bundle_deps b' = bundle_deps b
            \<union> aggregate_deps (bundle_module_name b) (bundle_ext (asset_name b)) [m]
       \<and> bundle_module_name b' = bundle_module_name b \<and> asset_name b' = asset_name b"
proof (cases "startswith (name m) (bundle_module_name b)")
  case True
  from add_module_Inr [OF True] assms
  have "b' = b\<lparr>bundle_modules := bundle_modules b @ [m], bundle_need_sort := True,
            bundle_deps := bundle_deps b
              \<union> aggregate_deps (bundle_module_name b) (bundle_ext (asset_name b)) [m]\<rparr>"
    unfolding aggregate_deps_single by simp
  with True show ?thesis by simp
next
  case False
  from add_module_Inl [OF False] assms show ?thesis by simp
qed

lemma Bundle_init_pkg:
  "Bundle_init (PyStr ''pkg.js'')
     = Inr \<lparr>asset_name = ''pkg.js'', asset_remote = False, asset_source_str = PyStr [],
            asset_source = PyStr [], bundle_assets = [], bundle_module_name = ''pkg'',
            bundle_modules = [], bundle_deps = {}, bundle_need_sort = False\<rparr>"
proof -
  have mn: "hd (split_char CHR ''-'' (rsplit1_head CHR ''.'' ''pkg.js'')) = ''pkg''" by code_simp
  show ?thesis by (simp add: Bundle_init_def Asset_init_pkg mn)
qed

text \<open>
  C6: for a bundle made by \<open>Bundle.__init__\<close>, after any sequence of \<open>add_module\<close> calls
  the modules of the bundle are the modules of the sequence whose name starts with
  the namespace, in the order of the calls (the others are refused), and the
  dependencies of the bundle are the union over these modules of their dependencies,
  expanded into every dotted-path prefix, without the names inside the namespace, each
  suffixed with the extension of the bundle. One accepted call, on any bundle, appends
  the module and adds to the dependencies those of the module, expanded, filtered and
  suffixed in this way. In particular, the bundle \<open>pkg.js\<close> with the
  module \<open>pkg.a\<close> that depends on \<open>pkg.sub.b\<close> and \<open>other.x\<close> has the dependencies
  \<open>other.x.js\<close> and \<open>other.js\<close>, and none of \<open>pkg.sub.b\<close>, \<open>pkg.sub\<close>, \<open>pkg\<close>.
\<close>

theorem add_module_deps:
  assumes "Bundle_init (PyStr nm) = Inr b0"
  shows "bundle_modules (add_modules ms b0)
           = filter (\<lambda>m. startswith (name m) (namespace nm)) ms
     \<and> bundle_deps (add_modules ms b0)
           = aggregate_deps (namespace nm) (bundle_ext nm) (bundle_modules (add_modules ms b0))
     \<and> (\<forall>m b b'. add_module m b = Inr b' \<longrightarrow>
           bundle_modules b' = bundle_modules b @ [m]
           \<and> bundle_deps b' = bundle_deps b
                \<union> aggregate_deps (bundle_module_name b) (bundle_ext (asset_name b)) [m])
     \<and> Bundle_init (PyStr ''pkg.js'')
           = Inr \<lparr>asset_name = ''pkg.js'', asset_remote = False, asset_source_str = PyStr [],
                  asset_source = PyStr [], bundle_assets = [], bundle_module_name = ''pkg'',
                  bundle_modules = [], bundle_deps = {}, bundle_need_sort = False\<rparr>
     \<and> add_module \<lparr>name = ''pkg.a'', deps = [''pkg.sub.b'', ''other.x'']\<rparr>
           \<lparr>asset_name = ''pkg.js'', asset_remote = False, asset_source_str = PyStr [],
            asset_source = PyStr [], bundle_assets = [], bundle_module_name = ''pkg'',
            bundle_modules = [], bundle_deps = {}, bundle_need_sort = False\<rparr>
           = Inr \<lparr>asset_name = ''pkg.js'', asset_remote = False, asset_source_str = PyStr [],
                  asset_source = PyStr [], bundle_assets = [], bundle_module_name = ''pkg'',
                  bundle_modules = [\<lparr>name = ''pkg.a'', deps = [''pkg.sub.b'', ''other.x'']\<rparr>],
                  bundle_deps = {''other.x.js'', ''other.js''}, bundle_need_sort = True\<rparr>"
proof -
  from add_modules_inv [OF Bundle_init_inv [OF assms], of ms]
  have i: "deps_inv nm ms (add_modules ms b0)" by simp
  have 1: "bundle_modules (add_modules ms b0)
           = filter (\<lambda>m. startswith (name m) (namespace nm)) ms"
    using i unfolding deps_inv_def by (rule_tac conjunct1 [OF conjunct2 [OF conjunct2]])
  have 2: "bundle_deps (add_modules ms b0)
           = aggregate_deps (namespace nm) (bundle_ext nm) (bundle_modules (add_modules ms b0))"
    using i unfolding deps_inv_def by (rule_tac conjunct2 [OF conjunct2 [OF conjunct2]])
  let ?M = "\<lparr>name = ''pkg.a'', deps = [''pkg.sub.b'', ''other.x'']\<rparr>"
  let ?B = "\<lparr>asset_name = ''pkg.js'', asset_remote = False, asset_source_str = PyStr [],
            asset_source = PyStr [], bundle_assets = [], bundle_module_name = ''pkg'',
            bundle_modules = [], bundle_deps = {}, bundle_need_sort = False\<rparr>"
  have s: "startswith (name ?M) (bundle_module_name ?B)" by code_simp
  have e: "(\<lambda>d. d @ bundle_ext (asset_name ?B)) `
             Set.filter (\<lambda>d. \<not> inside_namespace (bundle_module_name ?B) d)
               (\<Union>dep \<in> set (deps ?M). dotted_prefixes dep)
           = {''other.x.js'', ''other.js''}" by code_simp
  have 4: "add_module ?M ?B
           = Inr \<lparr>asset_name = ''pkg.js'', asset_remote = False, asset_source_str = PyStr [],
                  asset_source = PyStr [], bundle_assets = [], bundle_module_name = ''pkg'',
                  bundle_modules = [\<lparr>name = ''pkg.a'', deps = [''pkg.sub.b'', ''other.x'']\<rparr>],
                  bundle_deps = {''other.x.js'', ''other.js''}, bundle_need_sort = True\<rparr>"
    using add_module_Inr [of ?M ?B, unfolded e, OF s] by simp
  have 3: "\<forall>m b b'. add_module m b = Inr b' \<longrightarrow>
           bundle_modules b' = bundle_modules b @ [m]
           \<and> bundle_deps b' = bundle_deps b
                \<union> aggregate_deps (bundle_module_name b) (bundle_ext (asset_name b)) [m]"
    using add_module_step by blast
  from 1 2 3 Bundle_init_pkg 4 show ?thesis by (intro conjI)
qed

theorem add_module_deps_witness:
  "map name (bundle_modules (add_modules
       [\<lparr>name = ''pkg.a'', deps = [''pkg.sub.b'', ''other.x'']\<rparr>,
        \<lparr>name = ''zzz'', deps = [''q.r'']\<rparr>,
        \<lparr>name = ''pkg.b'', deps = [''pkg.a'', ''lib.util.str'']\<rparr>]
       \<lparr>asset_name = ''pkg.js'', asset_remote = False, asset_source_str = PyStr [],
        asset_source = PyStr [], bundle_assets = [], bundle_module_name = ''pkg'',
        bundle_modules = [], bundle_deps = {}, bundle_need_sort = False\<rparr>))
     = [''pkg.a'', ''pkg.b'']
   \<and> bundle_deps (add_modules
       [\<lparr>name = ''pkg.a'', deps = [''pkg.sub.b'', ''other.x'']\<rparr>,
        \<lparr>name = ''zzz'', deps = [''q.r'']\<rparr>,
        \<lparr>name = ''pkg.b'', deps = [''pkg.a'', ''lib.util.str'']\<rparr>]
       \<lparr>asset_name = ''pkg.js'', asset_remote = False, asset_source_str = PyStr [],
        asset_source = PyStr [], bundle_assets = [], bundle_module_name = ''pkg'',
        bundle_modules = [], bundle_deps = {}, bundle_need_sort = False\<rparr>)
     = {''other.x.js'', ''other.js'', ''lib.util.str.js'', ''lib.util.js'', ''lib.js''}
   \<and> aggregate_deps ''pkg'' (bundle_ext ''pkg.js'')
       [\<lparr>name = ''pkg.a'', deps = [''pkg.sub.b'', ''other.x'']\<rparr>]
     = {''other.x.js'', ''other.js''}"
proof -
  have f: "filter (\<lambda>m. startswith (name m) (namespace ''pkg.js''))
       [\<lparr>name = ''pkg.a'', deps = [''pkg.sub.b'', ''other.x'']\<rparr>,
        \<lparr>name = ''zzz'', deps = [''q.r'']\<rparr>,
        \<lparr>name = ''pkg.b'', deps = [''pkg.a'', ''lib.util.str'']\<rparr>]
     = [\<lparr>name = ''pkg.a'', deps = [''pkg.sub.b'', ''other.x'']\<rparr>,
        \<lparr>name = ''pkg.b'', deps = [''pkg.a'', ''lib.util.str'']\<rparr>]" by code_simp
  have a: "aggregate_deps (namespace ''pkg.js'') (bundle_ext ''pkg.js'')
       [\<lparr>name = ''pkg.a'', deps = [''pkg.sub.b'', ''other.x'']\<rparr>,
        \<lparr>name = ''pkg.b'', deps = [''pkg.a'', ''lib.util.str'']\<rparr>]
     = {''other.x.js'', ''other.js'', ''lib.util.str.js'', ''lib.util.js'', ''lib.js''}"
    by code_simp
  let ?X = "add_modules
       [\<lparr>name = ''pkg.a'', deps = [''pkg.sub.b'', ''other.x'']\<rparr>,
        \<lparr>name = ''zzz'', deps = [''q.r'']\<rparr>,
        \<lparr>name = ''pkg.b'', deps = [''pkg.a'', ''lib.util.str'']\<rparr>]
       \<lparr>asset_name = ''pkg.js'', asset_remote = False, asset_source_str = PyStr [],
        asset_source = PyStr [], bundle_assets = [], bundle_module_name = ''pkg'',
        bundle_modules = [], bundle_deps = {}, bundle_need_sort = False\<rparr>"
  note t = add_module_deps [OF Bundle_init_pkg, where ms =
       "[\<lparr>name = ''pkg.a'', deps = [''pkg.sub.b'', ''other.x'']\<rparr>,
        \<lparr>name = ''zzz'', deps = [''q.r'']\<rparr>,
        \<lparr>name = ''pkg.b'', deps = [''pkg.a'', ''lib.util.str'']\<rparr>]"]
  have m: "bundle_modules ?X
     = [\<lparr>name = ''pkg.a'', deps = [''pkg.sub.b'', ''other.x'']\<rparr>,
        \<lparr>name = ''pkg.b'', deps = [''pkg.a'', ''lib.util.str'']\<rparr>]"
    using t [THEN conjunct1] unfolding f .
  have d: "bundle_deps ?X
     = {''other.x.js'', ''other.js'', ''lib.util.str.js'', ''lib.util.js'', ''lib.js''}"
    using t [THEN conjunct2, THEN conjunct1] unfolding m a .
  have n: "map name (bundle_modules ?X) = [''pkg.a'', ''pkg.b'']" unfolding m by simp
  note step = t [THEN conjunct2, THEN conjunct2, THEN conjunct1, rule_format]
  note ex = t [THEN conjunct2, THEN conjunct2, THEN conjunct2, THEN conjunct2]
  from step [OF ex, THEN conjunct2]
  have s: "aggregate_deps ''pkg'' (bundle_ext ''pkg.js'')
       [\<lparr>name = ''pkg.a'', deps = [''pkg.sub.b'', ''other.x'']\<rparr>]
     = {''other.x.js'', ''other.js''}" by simp
  from n d s show ?thesis by (intro conjI)
qed

subsection \<open>How far the input order is kept\<close>

lemma index_of_append_if:
  "index_of w (xs @ ys) = (if w \<in> set xs then index_of w xs else length xs + index_of w ys)"
  by (induction xs) auto

lemma index_of_inj:
  "x \<in> set xs \<Longrightarrow> y \<in> set xs \<Longrightarrow> index_of x xs = index_of y xs \<Longrightarrow> x = y"
  by (metis nth_index_of)

lemma index_of_in_take:
  assumes "x \<in> set (take j xs)"
  shows "index_of x xs < j"
proof -
  have "index_of x (take j xs @ drop j xs) = index_of x (take j xs)"
    using assms by (rule index_of_append)
  then have "index_of x xs = index_of x (take j xs)" by simp
  also have "\<dots> < length (take j xs)" using assms by (rule index_of_less)
  finally show ?thesis by simp
qed

lemma move_front_split_first:
  assumes "index < j" "j < length names" "index_of (names ! j) names = j"
  obtains z mid suf where "names = take index names @ z # mid @ names ! j # suf"
    and "move_front index j names = take index names @ names ! j # z # mid @ suf"
    and "z = names ! index"
    and "names ! j \<notin> set (take index names)" and "names ! j \<noteq> z" and "names ! j \<notin> set mid"
proof -
  define pre where "pre = take index names"
  define mid where "mid = drop (Suc index) (take j names)"
  define suf where "suf = drop (Suc j) names"
  define z where "z = names ! index"
  define d where "d = names ! j"
  have lt: "index < length (take j names)" using assms(1,2) by simp
  have "drop index (take j names) = take j names ! index # drop (Suc index) (take j names)"
    using lt by (rule Cons_nth_drop_Suc [symmetric])
  moreover have "take j names ! index = z" using assms(1) by (simp add: z_def)
  ultimately have dr: "drop index (take j names) = z # mid" by (simp add: mid_def)
  have "take index (take j names) = pre" using assms(1) by (simp add: pre_def min_def)
  then have "take j names = pre @ drop index (take j names)"
    by (metis append_take_drop_id)
  with dr have tj: "take j names = pre @ z # mid" by simp
  have "take j names @ names ! j # drop (Suc j) names = names"
    using assms(2) by (rule id_take_nth_drop [symmetric])
  then have 1: "names = pre @ z # mid @ d # suf"
    unfolding tj suf_def d_def by simp
  have lp: "length pre = index" using assms(1,2) by (simp add: pre_def)
  have "move_front index j names
      = take index (take j names @ suf) @ d # drop index (take j names @ suf)"
    unfolding suf_def d_def by (simp add: move_front_def list_pop_def list_insert_def)
  also have "\<dots> = pre @ d # z # mid @ suf"
    unfolding tj using lp by simp
  finally have 2: "move_front index j names = pre @ d # z # mid @ suf" .
  have n: "d \<notin> set (take j names)"
  proof
    assume "d \<in> set (take j names)"
    then have "index_of d names < j" by (rule index_of_in_take)
    with assms(3) show False by (simp add: d_def)
  qed
  then have 3: "d \<notin> set pre" "d \<noteq> z" "d \<notin> set mid" unfolding tj by auto
  from 1 2 3 that [of z mid suf] show thesis
    unfolding pre_def [symmetric] d_def [symmetric] z_def [symmetric] by blast
qed

text \<open>
  \<open>order_kept G orig cur\<close>: whenever \<open>y\<close> comes after \<open>x\<close> in \<open>orig\<close> and before \<open>x\<close> in
  \<open>cur\<close> (by first positions), \<open>y\<close> is reachable in \<open>G\<close> from \<open>x\<close> or from a name before
  \<open>x\<close> in \<open>orig\<close>.
\<close>

definition order_kept :: "(string \<times> string) set \<Rightarrow> string list \<Rightarrow> string list \<Rightarrow> bool" where
  "order_kept G orig cur \<longleftrightarrow>
     (\<forall>x y. x \<in> set orig \<longrightarrow> y \<in> set orig \<longrightarrow> index_of x orig < index_of y orig \<longrightarrow>
        index_of y cur < index_of x cur \<longrightarrow>
        (\<exists>t\<in>set orig. index_of t orig \<le> index_of x orig \<and> (t, y) \<in> G\<^sup>+))"

lemma order_kept_refl: "order_kept G orig orig"
  by (simp add: order_kept_def)

lemma order_kept_move:
  assumes inv: "order_kept G orig (pre @ z # mid @ d # suf)"
    and st: "set (pre @ z # mid @ d # suf) = set orig"
    and d: "d \<notin> set pre" "d \<noteq> z" "d \<notin> set mid"
    and e: "(z, d) \<in> G"
  shows "order_kept G orig (pre @ d # z # mid @ suf)"
  unfolding order_kept_def
proof (intro allI impI)
  fix x y
  let ?cur = "pre @ z # mid @ d # suf" and ?new = "pre @ d # z # mid @ suf"
  assume x: "x \<in> set orig" and y: "y \<in> set orig"
    and xy: "index_of x orig < index_of y orig"
    and yx: "index_of y ?new < index_of x ?new"
  from xy have ne: "x \<noteq> y" by auto
  show "\<exists>t\<in>set orig. index_of t orig \<le> index_of x orig \<and> (t, y) \<in> G\<^sup>+"
  proof (cases "index_of y ?cur < index_of x ?cur")
    case True
    with inv x y xy show ?thesis unfolding order_kept_def by blast
  next
    case False
    have xc: "x \<in> set ?cur" and yc: "y \<in> set ?cur" using x y st by simp_all
    from False yx d ne xc yc have yd: "y = d" and xm: "x \<notin> set pre" "x = z \<or> x \<in> set mid"
      by (auto simp: index_of_append_if split: if_splits dest: index_of_less)
    have zo: "z \<in> set orig" using st by auto
    show ?thesis
    proof (cases "x = z")
      case True
      with e x yd show ?thesis by blast
    next
      case nz: False
      with xm d have zx: "index_of z ?cur < index_of x ?cur"
        by (auto simp: index_of_append_if dest: index_of_less)
      consider "index_of z orig < index_of x orig" | "index_of x orig < index_of z orig"
        using nz zo x by (metis index_of_inj linorder_neqE_nat)
      then show ?thesis
      proof cases
        case 1
        with e zo yd show ?thesis by (metis less_imp_le_nat r_into_trancl')
      next
        case 2
        with inv x zo zx obtain t where t: "t \<in> set orig" "index_of t orig \<le> index_of x orig"
          "(t, z) \<in> G\<^sup>+" unfolding order_kept_def by blast
        from t(3) e have "(t, d) \<in> G\<^sup>+" by (rule trancl_into_trancl)
        with t yd show ?thesis by blast
      qed
    qed
  qed
qed

lemma order_kept_move_front:
  assumes "order_kept G orig names" "set names = set orig"
    and "index < j" "j < length names" "index_of (names ! j) names = j"
    and "(names ! index, names ! j) \<in> G"
  shows "order_kept G orig (move_front index j names)"
proof -
  from assms(3-5) obtain z mid suf
    where a: "names = take index names @ z # mid @ names ! j # suf"
      and b: "move_front index j names = take index names @ names ! j # z # mid @ suf"
      and z: "z = names ! index"
      and n: "names ! j \<notin> set (take index names)" "names ! j \<noteq> z" "names ! j \<notin> set mid"
    by (rule move_front_split_first)
  define pre where "pre = take index names"
  define d where "d = names ! j"
  have 1: "order_kept G orig (pre @ z # mid @ d # suf)"
    using assms(1) a unfolding pre_def d_def by metis
  have 2: "set (pre @ z # mid @ d # suf) = set orig"
    using assms(2) a unfolding pre_def d_def by metis
  have "order_kept G orig (pre @ d # z # mid @ suf)"
    using 1 2 n assms(6) unfolding pre_def [symmetric] d_def [symmetric] z [symmetric]
    by (rule order_kept_move)
  then show ?thesis using b unfolding pre_def d_def by metis
qed

lemma settle_order_kept:
  "settle tm w index names seen lg = (lg', Inr names') \<Longrightarrow>
   order_kept G orig names \<Longrightarrow> set names = set orig \<Longrightarrow>
   \<forall>n t d. n \<in> set orig \<longrightarrow> tm n = Some t \<longrightarrow> d \<in> set (deps t) \<longrightarrow> d \<in> set orig
      \<longrightarrow> d \<noteq> n \<longrightarrow> (n, d) \<in> G \<Longrightarrow>
   order_kept G orig names'"
proof (induction tm w index names seen lg rule: settle.induct)
  case (1 tm w index names seen lg)
  show ?case
  proof (cases rule: settle_cases [of names index tm w seen lg])
    case range
    with "1.prems" show ?thesis by simp
  next
    case seen
    with "1.prems" show ?thesis by simp
  next
    case key
    with "1.prems" show ?thesis by simp
  next
    case (stop t lg1)
    with "1.prems" show ?thesis by simp
  next
    case (step t lg1 j)
    from scan_deps_Some [OF step(4)] have f: "index_of (names ! j) names = j" by simp
    have ne: "names ! j \<noteq> names ! index"
    proof
      assume "names ! j = names ! index"
      with f have "index_of (names ! index) names = j" by simp
      moreover have "index_of (names ! index) names \<le> index" using step(1) by (rule index_of_nth_le)
      ultimately show False using step(5) by simp
    qed
    have "names ! index \<in> set orig" "names ! j \<in> set orig"
      using step(1,6) "1.prems"(3) by (metis nth_mem)+
    with "1.prems"(4) step(3,7) ne have e: "(names ! index, names ! j) \<in> G" by blast
    have k: "order_kept G orig (move_front index j names)"
      using "1.prems"(2,3) step(5,6) f e by (rule order_kept_move_front)
    have s: "set (move_front index j names) = set orig"
      using step(6) "1.prems"(3) by (simp add: set_move_front)
    from "1.prems"(1) step(8)
    have r: "settle tm w index (move_front index j names) (insert (names ! index) seen) lg1
        = (lg', Inr names')" by simp
    from step(1,2,3,4) have c1: "\<not> length names \<le> index" "names ! index \<notin> seen" by simp_all
    show ?thesis
      using "1.IH" [of t lg1 "Some j" j, OF _ _ step(3) _ _ r k s "1.prems"(4)] c1 step(4)
      by simp
  qed
qed

lemma for_index_order_kept:
  "for_index tm w [k..<n] names lg = (lg', Inr names') \<Longrightarrow>
   order_kept G orig names \<Longrightarrow> set names = set orig \<Longrightarrow>
   \<forall>n t d. n \<in> set orig \<longrightarrow> tm n = Some t \<longrightarrow> d \<in> set (deps t) \<longrightarrow> d \<in> set orig
      \<longrightarrow> d \<noteq> n \<longrightarrow> (n, d) \<in> G \<Longrightarrow>
   order_kept G orig names'"
proof (induction "n - k" arbitrary: k names lg)
  case 0
  then have "[k..<n] = []" by simp
  with "0.prems" show ?case by simp
next
  case (Suc m)
  then have kn: "k < n" by simp
  then have u: "[k..<n] = k # [Suc k..<n]" by (rule upt_conv_Cons)
  obtain lg1 r where st: "settle tm w k names {} lg = (lg1, r)"
    by (cases "settle tm w k names {} lg") blast
  show ?case
  proof (cases r)
    case (Inl e1)
    with Suc.prems(1) u st show ?thesis by simp
  next
    case (Inr names1)
    with st have st': "settle tm w k names {} lg = (lg1, Inr names1)" by simp
    from settle_Inr [OF st'] have "mset names1 = mset names" by simp
    then have "set names1 = set names" by (rule mset_eq_setD)
    with Suc.prems(3) have s: "set names1 = set orig" by simp
    from settle_order_kept [OF st' Suc.prems(2,3,4)] have k1: "order_kept G orig names1" .
    from Suc.prems(1) u st' have f: "for_index tm w [Suc k..<n] names1 lg1 = (lg', Inr names')"
      by simp
    have "m = n - Suc k" using Suc.hyps(2) by simp
    from Suc.hyps(1) [OF this f k1 s Suc.prems(4)] show ?thesis .
  qed
qed

lemma solve_dependencies_names:
  assumes "solve_dependencies things w = (lg, Inr out)"
  shows "for_index (make_thingmap things) w [0..<length (map name things)] (map name things) []
           = (lg, Inr (map name out))"
proof -
  let ?names = "map name things" and ?tm = "make_thingmap things"
  obtain lg1 r where f: "for_index ?tm w [0..<length ?names] ?names [] = (lg1, r)"
    by (cases "for_index ?tm w [0..<length ?names] ?names []") blast
  show ?thesis
  proof (cases r)
    case (Inl e)
    with f assms show ?thesis by (simp add: solve_dependencies_def Let_def)
  next
    case (Inr names')
    with f assms have l: "lg1 = lg" "lookup_all ?tm names' = Inr out"
      by (simp_all add: solve_dependencies_def Let_def)
    from lookup_all_Inr [OF l(2)] have o: "out = map (\<lambda>n. the (?tm n)) names'"
      and dm: "\<forall>n\<in>set names'. ?tm n \<noteq> None" by simp_all
    have "map name out = names'"
      unfolding o
    proof (rule nth_equalityI)
      show "length (map name (map (\<lambda>n. the (?tm n)) names')) = length names'" by simp
    next
      fix i assume "i < length (map name (map (\<lambda>n. the (?tm n)) names'))"
      then have i: "i < length names'" by simp
      then have "names' ! i \<in> set names'" by simp
      with dm obtain t where "?tm (names' ! i) = Some t" by blast
      with make_thingmap_Some [OF this] have "name (the (?tm (names' ! i))) = names' ! i" by simp
      with i show "map name (map (\<lambda>n. the (?tm n)) names') ! i = names' ! i" by simp
    qed
    with f Inr l show ?thesis by simp
  qed
qed

lemma solve_dependencies_order_kept:
  assumes "solve_dependencies things w = (lg, Inr out)"
  shows "order_kept (dep_graph things) (map name things) (map name out)"
proof -
  let ?names = "map name things" and ?tm = "make_thingmap things"
  have g: "\<forall>n t d. n \<in> set ?names \<longrightarrow> ?tm n = Some t \<longrightarrow> d \<in> set (deps t) \<longrightarrow> d \<in> set ?names
      \<longrightarrow> d \<noteq> n \<longrightarrow> (n, d) \<in> dep_graph things"
  proof (intro allI impI)
    fix n t d
    assume "?tm n = Some t" "d \<in> set (deps t)" "d \<in> set ?names"
    with make_thingmap_Some [of things n t] show "(n, d) \<in> dep_graph things"
      unfolding dep_graph_def by auto
  qed
  from solve_dependencies_names [OF assms] order_kept_refl [of "dep_graph things" ?names] _ g
  show ?thesis by (rule for_index_order_kept) simp
qed

text \<open>
  C5 as stated fails. In \<open>[c, b, a]\<close>, where \<open>c\<close> depends on \<open>a\<close>, the things \<open>b\<close> and \<open>a\<close> have
  no dependency between them, direct or transitive, and \<open>b\<close> comes first; in the result
  \<open>[a, c, b]\<close> the thing \<open>a\<close> comes first.
\<close>

theorem solve_dependencies_unstable_counterexample:
  "solve_dependencies
     [\<lparr>name = ''c'', deps = [''a'']\<rparr>, \<lparr>name = ''b'', deps = []\<rparr>, \<lparr>name = ''a'', deps = []\<rparr>] False
     = ([], Inr [\<lparr>name = ''a'', deps = []\<rparr>, \<lparr>name = ''c'', deps = [''a'']\<rparr>,
                 \<lparr>name = ''b'', deps = []\<rparr>])
   \<and> (''a'', ''b'') \<notin> (dep_graph
        [\<lparr>name = ''c'', deps = [''a'']\<rparr>, \<lparr>name = ''b'', deps = []\<rparr>, \<lparr>name = ''a'', deps = []\<rparr>])\<^sup>+
   \<and> (''b'', ''a'') \<notin> (dep_graph
        [\<lparr>name = ''c'', deps = [''a'']\<rparr>, \<lparr>name = ''b'', deps = []\<rparr>, \<lparr>name = ''a'', deps = []\<rparr>])\<^sup>+
   \<and> index_of \<lparr>name = ''b'', deps = []\<rparr>
        [\<lparr>name = ''c'', deps = [''a'']\<rparr>, \<lparr>name = ''b'', deps = []\<rparr>, \<lparr>name = ''a'', deps = []\<rparr>]
     < index_of \<lparr>name = ''a'', deps = []\<rparr>
        [\<lparr>name = ''c'', deps = [''a'']\<rparr>, \<lparr>name = ''b'', deps = []\<rparr>, \<lparr>name = ''a'', deps = []\<rparr>]
   \<and> index_of \<lparr>name = ''a'', deps = []\<rparr>
        [\<lparr>name = ''a'', deps = []\<rparr>, \<lparr>name = ''c'', deps = [''a'']\<rparr>, \<lparr>name = ''b'', deps = []\<rparr>]
     < index_of \<lparr>name = ''b'', deps = []\<rparr>
        [\<lparr>name = ''a'', deps = []\<rparr>, \<lparr>name = ''c'', deps = [''a'']\<rparr>, \<lparr>name = ''b'', deps = []\<rparr>]"
proof -
  let ?T = "[\<lparr>name = ''c'', deps = [''a'']\<rparr>, \<lparr>name = ''b'', deps = []\<rparr>,
             \<lparr>name = ''a'', deps = []\<rparr>]"
  have g: "dep_graph ?T = {(''c'', ''a'')}" by (auto simp: dep_graph_def)
  have 1: "solve_dependencies ?T False
     = ([], Inr [\<lparr>name = ''a'', deps = []\<rparr>, \<lparr>name = ''c'', deps = [''a'']\<rparr>,
                 \<lparr>name = ''b'', deps = []\<rparr>])" by code_simp
  have "''a'' \<notin> Domain ((dep_graph ?T)\<^sup>+)" unfolding trancl_domain g by simp
  then have 2: "(''a'', ''b'') \<notin> (dep_graph ?T)\<^sup>+" by (rule contrapos_nn) (rule DomainI)
  have "''b'' \<notin> Domain ((dep_graph ?T)\<^sup>+)" unfolding trancl_domain g by simp
  then have 3: "(''b'', ''a'') \<notin> (dep_graph ?T)\<^sup>+" by (rule contrapos_nn) (rule DomainI)
  have 4: "index_of \<lparr>name = ''b'', deps = []\<rparr> ?T < index_of \<lparr>name = ''a'', deps = []\<rparr> ?T"
    by simp
  have 5: "index_of \<lparr>name = ''a'', deps = []\<rparr>
        [\<lparr>name = ''a'', deps = []\<rparr>, \<lparr>name = ''c'', deps = [''a'']\<rparr>, \<lparr>name = ''b'', deps = []\<rparr>]
     < index_of \<lparr>name = ''b'', deps = []\<rparr>
        [\<lparr>name = ''a'', deps = []\<rparr>, \<lparr>name = ''c'', deps = [''a'']\<rparr>, \<lparr>name = ''b'', deps = []\<rparr>]"
    by simp
  from 1 2 3 4 5 show ?thesis by (intro conjI)
qed

text \<open>
  C5, amended. The sequence \<open>[c, a, b]\<close>, where \<open>c\<close> and \<open>b\<close> depend on \<open>a\<close>, is resolved to
  \<open>[a, c, b]\<close>. In general, when \<open>solve_dependencies\<close> succeeds, a name \<open>y\<close> that comes
  after a name \<open>x\<close> in the input still comes after \<open>x\<close> in the result, unless \<open>y\<close> is a
  direct or transitive dependency of \<open>x\<close> or of a name that comes before \<open>x\<close> in the
  input. The place of a name is the place of the first thing that has it.
\<close>

theorem solve_dependencies_order:
  assumes "solve_dependencies things warn_missing = (lg, Inr out)"
    and "x \<in> name ` set things" and "y \<in> name ` set things"
    and "index_of x (map name things) < index_of y (map name things)"
    and "\<forall>t\<in>name ` set things. index_of t (map name things) \<le> index_of x (map name things)
           \<longrightarrow> (t, y) \<notin> (dep_graph things)\<^sup>+"
  shows "index_of x (map name out) < index_of y (map name out)
     \<and> solve_dependencies
         [\<lparr>name = ''c'', deps = [''a'']\<rparr>, \<lparr>name = ''a'', deps = []\<rparr>,
          \<lparr>name = ''b'', deps = [''a'']\<rparr>] False
       = ([], Inr [\<lparr>name = ''a'', deps = []\<rparr>, \<lparr>name = ''c'', deps = [''a'']\<rparr>,
                   \<lparr>name = ''b'', deps = [''a'']\<rparr>])"
proof -
  let ?names = "map name things"
  from solve_dependencies_order_kept [OF assms(1)]
  have k: "order_kept (dep_graph things) ?names (map name out)" .
  from solve_dependencies_names [OF assms(1)]
  have f: "for_index (make_thingmap things) warn_missing [0..<length ?names] ?names []
      = (lg, Inr (map name out))" .
  have "mset (map name out) = mset ?names"
    using for_index_Inr [OF f] by simp
  then have s: "set (map name out) = set ?names" by (rule mset_eq_setD)
  have xs: "x \<in> set ?names" and ys: "y \<in> set ?names" using assms(2,3) by simp_all
  have n: "\<not> index_of y (map name out) < index_of x (map name out)"
  proof
    assume "index_of y (map name out) < index_of x (map name out)"
    with k xs ys assms(4) obtain t where "t \<in> set ?names"
      "index_of t ?names \<le> index_of x ?names" "(t, y) \<in> (dep_graph things)\<^sup>+"
      unfolding order_kept_def by blast
    moreover from this(1) have "t \<in> name ` set things" by simp
    ultimately show False using assms(5) by blast
  qed
  from assms(4) have "x \<noteq> y" by auto
  with xs ys s have "index_of x (map name out) \<noteq> index_of y (map name out)"
    by (metis index_of_inj)
  with n have 1: "index_of x (map name out) < index_of y (map name out)" by simp
  have 2: "solve_dependencies
         [\<lparr>name = ''c'', deps = [''a'']\<rparr>, \<lparr>name = ''a'', deps = []\<rparr>,
          \<lparr>name = ''b'', deps = [''a'']\<rparr>] False
       = ([], Inr [\<lparr>name = ''a'', deps = []\<rparr>, \<lparr>name = ''c'', deps = [''a'']\<rparr>,
                   \<lparr>name = ''b'', deps = [''a'']\<rparr>])" by code_simp
  from 1 2 show ?thesis by (intro conjI)
qed

theorem solve_dependencies_order_witness:
  "solve_dependencies
     [\<lparr>name = ''c'', deps = [''a'']\<rparr>, \<lparr>name = ''a'', deps = []\<rparr>,
      \<lparr>name = ''b'', deps = [''a'']\<rparr>] False
     = ([], Inr [\<lparr>name = ''a'', deps = []\<rparr>, \<lparr>name = ''c'', deps = [''a'']\<rparr>,
                 \<lparr>name = ''b'', deps = [''a'']\<rparr>])
   \<and> index_of ''c'' (map name [\<lparr>name = ''a'', deps = []\<rparr>, \<lparr>name = ''c'', deps = [''a'']\<rparr>,
                 \<lparr>name = ''b'', deps = [''a'']\<rparr>])
     < index_of ''b'' (map name [\<lparr>name = ''a'', deps = []\<rparr>, \<lparr>name = ''c'', deps = [''a'']\<rparr>,
                 \<lparr>name = ''b'', deps = [''a'']\<rparr>])"
proof -
  let ?T = "[\<lparr>name = ''c'', deps = [''a'']\<rparr>, \<lparr>name = ''a'', deps = []\<rparr>,
             \<lparr>name = ''b'', deps = [''a'']\<rparr>]"
  have e: "solve_dependencies ?T False
     = ([], Inr [\<lparr>name = ''a'', deps = []\<rparr>, \<lparr>name = ''c'', deps = [''a'']\<rparr>,
                 \<lparr>name = ''b'', deps = [''a'']\<rparr>])" by code_simp
  have x: "''c'' \<in> name ` set ?T" by simp
  have y: "''b'' \<in> name ` set ?T" by simp
  have i: "index_of ''c'' (map name ?T) < index_of ''b'' (map name ?T)" by simp
  have "Range (dep_graph ?T) \<subseteq> {''a''}" by (auto simp: dep_graph_def)
  then have "''b'' \<notin> Range ((dep_graph ?T)\<^sup>+)" unfolding trancl_range by auto
  then have g: "\<forall>t\<in>name ` set ?T. index_of t (map name ?T) \<le> index_of ''c'' (map name ?T)
           \<longrightarrow> (t, ''b'') \<notin> (dep_graph ?T)\<^sup>+" by blast
  from solve_dependencies_order [OF e x y i g, THEN conjunct1] e
  show ?thesis by (intro conjI)
qed

end
